theory Spec2Isabelle
  imports
    Main
    "HOL-Library.AList"
    "HOL-Library.Char_ord"
    "HOL-Library.List_Lexorder"
    "HOL-Library.Multiset"
begin

section \<open>Data model of build\_sorter\_layout.py\<close>

text \<open>
  A Python \<open>str\<close> is modelled as \<open>string\<close>; item, category and bin names are taken
  to be ASCII. Strings are compared as Python compares them, lexicographically by code
  point (the orders of \<open>Char_ord\<close> and \<open>List_Lexorder\<close>).

  A Python \<open>dict\<close> is an association list in insertion order with distinct keys:
  \<open>d[k] = v\<close> is \<open>AList.update k v d\<close> (the value is replaced in place when the key
  exists, the pair is appended otherwise), \<open>d[k]\<close> and \<open>d.get(k)\<close> are \<open>map_of d k\<close>, and
  \<open>d.items()\<close> is the list itself.
\<close>

type_synonym 'v dict = "(string \<times> 'v) list"

text \<open>
  Every \<open>raise\<close> and every \<open>sys.exit\<close> of the source is a value of \<open>error\<close>. The text of
  a message is not modelled; a constructor carries the values its message is built from.
  \<^item> \<open>DuplicateKey name uniq\<close>: the \<open>ValueError\<close> of \<open>no_dupes_object_pairs_hook\<close>
    (file name, the repeated keys);
  \<^item> \<open>CategoryMismatch only_in_categories only_in_layout\<close>: the report of
    \<open>validate_same_categories\<close>, followed by \<open>sys.exit(2)\<close>;
  \<^item> \<open>BinConflict category_dupes overlaps\<close>: the report of
    \<open>validate_layout_bins_unique\<close>, followed by \<open>sys.exit(3)\<close>;
  \<^item> \<open>InvalidBinId bin_id\<close>: the \<open>ValueError\<close> of \<open>parse_bin\<close>;
  \<^item> \<open>SubstringNotFound\<close>: the \<open>ValueError\<close> of \<open>str.index\<close>;
  \<^item> \<open>OutOfRangeError b\<close>: the \<open>ValueError\<close> of \<open>build_bin_to_category\<close>;
  \<^item> \<open>CapacityError n capacity bins\<close>: the \<open>ValueError\<close> of \<open>fill_bins_for_category\<close>;
  \<^item> \<open>KeyError k\<close>: a dictionary read at a missing key;
  \<^item> \<open>IndexError\<close>: a list read out of range.
\<close>

datatype error =
    DuplicateKey string "string list"
  | CategoryMismatch "string list" "string list"
  | BinConflict "string list dict" "string list dict"
  | InvalidBinId string
  | SubstringNotFound
  | OutOfRangeError string
  | CapacityError nat nat "string list"
  | KeyError string
  | IndexError

text \<open>
  The value of \<open>sorter[b]\<close>, the dictionary \<open>{"category": ..., "items": ...}\<close>: the
  field \<open>e_category\<close> is its entry \<open>"category"\<close>, \<open>e_items\<close> its entry \<open>"items"\<close>.
\<close>

record bin_entry =
  e_category :: string
  e_items :: "string list"

text \<open>
  One data row as \<open>write_exhaustive_chest_csv\<close> hands it to \<open>csv.writer\<close>: the columns
  \<open>#\<close>, \<open>ChestID\<close>, \<open>Column\<close>, \<open>Cluster\<close>, \<open>Number\<close>, \<open>Categories\<close>, \<open>Description\<close>.
  The counters only count up from 1, so they are natural numbers.
\<close>

record row =
  row_counter :: nat
  chest_id :: string
  col_letter :: string
  cluster_num :: nat
  slot_num :: nat
  row_category :: string
  desc :: string

definition BIN_CAPACITY :: nat where
  "BIN_CAPACITY = 9"

definition ascii_uppercase :: string where
  "ascii_uppercase = ''ABCDEFGHIJKLMNOPQRSTUVWXYZ''"

subsection \<open>Library functions the source calls\<close>

text \<open>\<open>str.casefold\<close> on ASCII text: the letters A to Z become a to z.\<close>

definition casefold_char :: "char \<Rightarrow> char" where
  "casefold_char c =
     (if CHR ''A'' \<le> c \<and> c \<le> CHR ''Z'' then char_of (of_char c + (32::nat)) else c)"

definition casefold :: "string \<Rightarrow> string" where
  "casefold s = map casefold_char s"

text \<open>
  \<open>sorted(xs, key=str.casefold)\<close> is \<open>sort_key casefold xs\<close>: both are stable, entries
  with equal keys keep the order they have in \<open>xs\<close>.
\<close>

text \<open>\<open>s.index(sub)\<close>: where \<open>sub\<close> first occurs in \<open>s\<close>; \<open>ValueError\<close> when it does not.\<close>

fun str_index :: "string \<Rightarrow> string \<Rightarrow> error + nat" where
  "str_index [] sub = (if sub = [] then Inr 0 else Inl SubstringNotFound)"
| "str_index (c # cs) sub =
     (if take (length sub) (c # cs) = sub then Inr 0
      else (case str_index cs sub of Inl e \<Rightarrow> Inl e | Inr i \<Rightarrow> Inr (Suc i)))"

text \<open>\<open>str(n)\<close> for a non-negative integer, as an f-string formats it.\<close>

definition digit_char :: "nat \<Rightarrow> char" where
  "digit_char d = char_of (48 + d)"

function str_nat :: "nat \<Rightarrow> string" where
  "str_nat n = (if n < 10 then [digit_char n] else str_nat (n div 10) @ [digit_char (n mod 10)])"
  by pat_completeness auto
termination
  by (relation "measure id") auto

declare str_nat.simps [simp del]

section \<open>Mapping loader\<close>

text \<open>
  \<open>json.loads\<close> hands \<open>no_dupes_object_pairs_hook\<close> the key--value pairs of an object
  in document order. The loop of the hook keeps the dictionary \<open>obj\<close>, the set \<open>seen\<close>
  (here a list) and the list \<open>dupes\<close>.
\<close>

fun hook_loop ::
  "'v dict \<Rightarrow> string list \<Rightarrow> string list \<Rightarrow> (string \<times> 'v) list \<Rightarrow> 'v dict \<times> string list" where
  "hook_loop obj seen dupes [] = (obj, dupes)"
| "hook_loop obj seen dupes ((k, v) # pairs) =
     hook_loop (AList.update k v obj) (k # seen)
       (if k \<in> set seen then dupes @ [k] else dupes) pairs"

fun uniq_loop :: "string list \<Rightarrow> string list \<Rightarrow> string list" where
  "uniq_loop uniq [] = uniq"
| "uniq_loop uniq (d # ds) = uniq_loop (if d \<notin> set uniq then uniq @ [d] else uniq) ds"

definition no_dupes_object_pairs_hook :: "string \<Rightarrow> (string \<times> 'v) list \<Rightarrow> error + 'v dict" where
  "no_dupes_object_pairs_hook path_name pairs =
     (case hook_loop [] [] [] pairs of
        (obj, dupes) \<Rightarrow>
          if dupes \<noteq> [] then Inl (DuplicateKey path_name (uniq_loop [] dupes)) else Inr obj)"

text \<open>
  The two loaders, from the pairs of the document's top-level object. The shape checks
  (an object of string lists) are the type of the argument.
\<close>

definition load_categories :: "(string \<times> string list) list \<Rightarrow> error + string list dict" where
  "load_categories pairs = no_dupes_object_pairs_hook ''categories.json'' pairs"

definition load_layout :: "(string \<times> string list) list \<Rightarrow> error + string list dict" where
  "load_layout pairs = no_dupes_object_pairs_hook ''category_layout.json'' pairs"

section \<open>Consistency validator\<close>

text \<open>
  \<open>cat_set - layout_set\<close> is a Python set, whose iteration order is not fixed; the model
  lists it in dictionary order before the stable sort, which matters only between names
  that are equal under \<open>casefold\<close>.
\<close>

definition validate_same_categories :: "string list dict \<Rightarrow> string list dict \<Rightarrow> error + unit" where
  "validate_same_categories categories layout =
     (let cat_keys = map fst categories;
          layout_keys = map fst layout;
          only_in_categories = sort_key casefold (filter (\<lambda>k. k \<notin> set layout_keys) cat_keys);
          only_in_layout = sort_key casefold (filter (\<lambda>k. k \<notin> set cat_keys) layout_keys)
      in if only_in_categories \<noteq> [] \<or> only_in_layout \<noteq> []
         then Inl (CategoryMismatch only_in_categories only_in_layout)
         else Inr ())"

text \<open>The inner loop that finds the bins listed twice in one category.\<close>

fun find_dupes :: "string list \<Rightarrow> string list \<Rightarrow> string list \<Rightarrow> string list" where
  "find_dupes seen dupes [] = dupes"
| "find_dupes seen dupes (b # bins) =
     find_dupes (b # seen) (if b \<in> set seen \<and> b \<notin> set dupes then dupes @ [b] else dupes) bins"

fun collect_category_dupes :: "string list dict \<Rightarrow> string list dict \<Rightarrow> string list dict" where
  "collect_category_dupes category_dupes [] = category_dupes"
| "collect_category_dupes category_dupes ((category, bins) # layout) =
     (let dupes = find_dupes [] [] bins
      in collect_category_dupes
           (if dupes \<noteq> [] then AList.update category dupes category_dupes else category_dupes)
           layout)"

text \<open>\<open>bin_to_categories.setdefault(b, []).append(category)\<close>\<close>

fun setdefault_append :: "string list dict \<Rightarrow> string \<Rightarrow> string \<Rightarrow> string list dict" where
  "setdefault_append [] b category = [(b, [category])]"
| "setdefault_append ((k, cats) # d) b category =
     (if k = b then (k, cats @ [category]) # d else (k, cats) # setdefault_append d b category)"

fun collect_bins :: "string list dict \<Rightarrow> string \<Rightarrow> string list \<Rightarrow> string list dict" where
  "collect_bins bin_to_categories category [] = bin_to_categories"
| "collect_bins bin_to_categories category (b # bins) =
     collect_bins (setdefault_append bin_to_categories b category) category bins"

fun collect_bin_to_categories :: "string list dict \<Rightarrow> string list dict \<Rightarrow> string list dict" where
  "collect_bin_to_categories bin_to_categories [] = bin_to_categories"
| "collect_bin_to_categories bin_to_categories ((category, bins) # layout) =
     collect_bin_to_categories (collect_bins bin_to_categories category bins) layout"

text \<open>
  The report lists the keys sorted by \<open>casefold\<close> and, for each key, its values sorted
  by \<open>casefold\<close>.
\<close>

definition sorted_report :: "string list dict \<Rightarrow> string list dict" where
  "sorted_report d =
     map (\<lambda>(k, vs). (k, sort_key casefold vs)) (sort_key (\<lambda>p. casefold (fst p)) d)"

definition validate_layout_bins_unique :: "string list dict \<Rightarrow> error + unit" where
  "validate_layout_bins_unique layout =
     (let category_dupes = collect_category_dupes [] layout;
          bin_to_categories = collect_bin_to_categories [] layout;
          overlaps = filter (\<lambda>(b, cats). length cats > 1) bin_to_categories
      in if category_dupes \<noteq> [] \<or> overlaps \<noteq> []
         then Inl (BinConflict (sorted_report category_dupes) (sorted_report overlaps))
         else Inr ())"

section \<open>Bin space generator\<close>

text \<open>
  \<open>parse_bin\<close>: a bin id is one letter of \<open>ascii_uppercase\<close> followed by \<open>1\<close> or \<open>2\<close>.
  The length is tested first, so \<open>bin_id[0]\<close> and \<open>bin_id[1]\<close> are single characters.
\<close>

definition parse_bin :: "string \<Rightarrow> error + (string \<times> nat)" where
  "parse_bin bin_id =
     (case bin_id of
        [c, d] \<Rightarrow>
          if c \<notin> set ascii_uppercase \<or> d \<notin> {CHR ''1'', CHR ''2''}
          then Inl (InvalidBinId bin_id)
          else Inr ([c], if d = CHR ''1'' then 1 else 2)
      | _ \<Rightarrow> Inl (InvalidBinId bin_id))"

text \<open>The loop of \<open>generate_all_bins\<close> over the letters, with the list \<open>bins\<close> it appends to.\<close>

fun append_bins :: "string list \<Rightarrow> string \<Rightarrow> string list" where
  "append_bins bins [] = bins"
| "append_bins bins (letter # letters) =
     append_bins (bins @ [[letter] @ ''1'', [letter] @ ''2'']) letters"

definition generate_all_bins :: "string \<Rightarrow> string \<Rightarrow> error + string list" where
  "generate_all_bins start_letter end_letter =
     (case str_index ascii_uppercase start_letter of
        Inl e \<Rightarrow> Inl e
      | Inr start_idx \<Rightarrow>
          (case str_index ascii_uppercase end_letter of
             Inl e \<Rightarrow> Inl e
           | Inr end_idx \<Rightarrow>
               Inr (append_bins []
                      (take (end_idx + 1 - start_idx) (drop start_idx ascii_uppercase)))))"

section \<open>Packer\<close>

text \<open>
  \<open>build_bin_to_category\<close>: the dictionary starts with every bin of \<open>all_bins\<close> labelled
  \<open>UNUSED\<close>; the two nested loops over the layout relabel it and raise at the first bin
  that is not a key.
\<close>

fun unused_bins :: "string dict \<Rightarrow> string list \<Rightarrow> string dict" where
  "unused_bins d [] = d"
| "unused_bins d (b # all_bins) = unused_bins (AList.update b ''UNUSED'' d) all_bins"

fun assign_bins :: "string dict \<Rightarrow> string \<Rightarrow> string list \<Rightarrow> error + string dict" where
  "assign_bins bin_to_category category [] = Inr bin_to_category"
| "assign_bins bin_to_category category (b # bins) =
     (case map_of bin_to_category b of
        None \<Rightarrow> Inl (OutOfRangeError b)
      | Some _ \<Rightarrow> assign_bins (AList.update b category bin_to_category) category bins)"

fun assign_layout :: "string dict \<Rightarrow> string list dict \<Rightarrow> error + string dict" where
  "assign_layout bin_to_category [] = Inr bin_to_category"
| "assign_layout bin_to_category ((category, bins) # layout) =
     (case assign_bins bin_to_category category bins of
        Inl e \<Rightarrow> Inl e
      | Inr bin_to_category' \<Rightarrow> assign_layout bin_to_category' layout)"

definition build_bin_to_category :: "string list \<Rightarrow> string list dict \<Rightarrow> error + string dict" where
  "build_bin_to_category all_bins layout = assign_layout (unused_bins [] all_bins) layout"

text \<open>
  \<open>fill_bins_for_category\<close>: \<open>out\<close> starts with every bin empty; the loop gives the bins,
  in order, the slices \<open>items_sorted[i : i + BIN_CAPACITY]\<close> and breaks once \<open>i\<close> has
  reached the number of items.
\<close>

fun empty_bins :: "string list dict \<Rightarrow> string list \<Rightarrow> string list dict" where
  "empty_bins out [] = out"
| "empty_bins out (b # bins) = empty_bins (AList.update b [] out) bins"

fun fill_loop :: "string list \<Rightarrow> string list dict \<Rightarrow> nat \<Rightarrow> string list \<Rightarrow> string list dict" where
  "fill_loop items_sorted out i [] = out"
| "fill_loop items_sorted out i (b # bins) =
     (let out' = AList.update b (take BIN_CAPACITY (drop i items_sorted)) out;
          i' = i + BIN_CAPACITY
      in if i' \<ge> length items_sorted then out' else fill_loop items_sorted out' i' bins)"

definition fill_bins_for_category :: "string list \<Rightarrow> string list \<Rightarrow> error + string list dict" where
  "fill_bins_for_category items bins =
     (let items_sorted = sort_key casefold items;
          capacity = length bins * BIN_CAPACITY
      in if length items_sorted > capacity
         then Inl (CapacityError (length items_sorted) capacity bins)
         else Inr (fill_loop items_sorted (empty_bins [] bins) 0 bins))"

text \<open>
  \<open>build_full_sorter\<close>: the pre-fill loop reads \<open>bin_to_category[b]\<close> for every bin; the
  second loop reads \<open>categories[category]\<close>, packs, and stores \<open>filled.get(b, [])\<close> in
  \<open>sorter[b]["items"]\<close> for every bin of the category.
\<close>

fun prefill :: "string dict \<Rightarrow> bin_entry dict \<Rightarrow> string list \<Rightarrow> error + bin_entry dict" where
  "prefill bin_to_category sorter [] = Inr sorter"
| "prefill bin_to_category sorter (b # all_bins) =
     (case map_of bin_to_category b of
        None \<Rightarrow> Inl (KeyError b)
      | Some c \<Rightarrow>
          prefill bin_to_category
            (AList.update b \<lparr>e_category = c, e_items = []\<rparr> sorter) all_bins)"

fun store_items :: "string list dict \<Rightarrow> bin_entry dict \<Rightarrow> string list \<Rightarrow> error + bin_entry dict" where
  "store_items filled sorter [] = Inr sorter"
| "store_items filled sorter (b # bins) =
     (case map_of sorter b of
        None \<Rightarrow> Inl (KeyError b)
      | Some e \<Rightarrow>
          store_items filled
            (AList.update b
               (e\<lparr>e_items := (case map_of filled b of None \<Rightarrow> [] | Some xs \<Rightarrow> xs)\<rparr>) sorter)
            bins)"

fun fill_layout ::
  "string list dict \<Rightarrow> bin_entry dict \<Rightarrow> string list dict \<Rightarrow> error + bin_entry dict" where
  "fill_layout categories sorter [] = Inr sorter"
| "fill_layout categories sorter ((category, bins) # layout) =
     (case map_of categories category of
        None \<Rightarrow> Inl (KeyError category)
      | Some items \<Rightarrow>
          (case fill_bins_for_category items bins of
             Inl e \<Rightarrow> Inl e
           | Inr filled \<Rightarrow>
               (case store_items filled sorter bins of
                  Inl e \<Rightarrow> Inl e
                | Inr sorter' \<Rightarrow> fill_layout categories sorter' layout)))"

definition build_full_sorter ::
  "string list dict \<Rightarrow> string list dict \<Rightarrow> string list \<Rightarrow> error + bin_entry dict" where
  "build_full_sorter categories layout all_bins =
     (case build_bin_to_category all_bins layout of
        Inl e \<Rightarrow> Inl e
      | Inr bin_to_category \<Rightarrow>
          (case prefill bin_to_category [] all_bins of
             Inl e \<Rightarrow> Inl e
           | Inr sorter \<Rightarrow> fill_layout categories sorter layout))"

section \<open>Slot table emitter\<close>

text \<open>\<open>xs[i]\<close> for \<open>i \<ge> 0\<close>.\<close>

definition list_get :: "'a list \<Rightarrow> nat \<Rightarrow> error + 'a" where
  "list_get xs i = (if i < length xs then Inr (xs ! i) else Inl IndexError)"

text \<open>
  The inner loop over \<open>range(1, BIN_CAPACITY + 1)\<close>: it returns the rows written and the
  counter. \<open>items\<close> is already padded.
\<close>

fun write_slots ::
  "nat \<Rightarrow> string \<Rightarrow> string \<Rightarrow> nat \<Rightarrow> string \<Rightarrow> string list \<Rightarrow> nat list \<Rightarrow> error + (row list \<times> nat)" where
  "write_slots counter bin_id col cluster cat items [] = Inr ([], counter)"
| "write_slots counter bin_id col cluster cat items (slot # slots) =
     (case list_get items (slot - 1) of
        Inl e \<Rightarrow> Inl e
      | Inr d \<Rightarrow>
          (case write_slots (counter + 1) bin_id col cluster cat items slots of
             Inl e \<Rightarrow> Inl e
           | Inr (rows, counter') \<Rightarrow>
               Inr (\<lparr>row_counter = counter, chest_id = bin_id @ ''-'' @ str_nat slot,
                     col_letter = col, cluster_num = cluster, slot_num = slot,
                     row_category = cat, desc = d\<rparr> # rows, counter')))"

text \<open>
  The outer loop over \<open>all_bins\<close>. \<open>[""] * n\<close> is empty for \<open>n \<le> 0\<close>, which is what the
  truncating subtraction of \<open>nat\<close> gives.
\<close>

fun write_bins :: "bin_entry dict \<Rightarrow> nat \<Rightarrow> string list \<Rightarrow> error + row list" where
  "write_bins sorter counter [] = Inr []"
| "write_bins sorter counter (bin_id # all_bins) =
     (case parse_bin bin_id of
        Inl e \<Rightarrow> Inl e
      | Inr (col, cluster) \<Rightarrow>
          (case map_of sorter bin_id of
             None \<Rightarrow> Inl (KeyError bin_id)
           | Some e \<Rightarrow>
               (case write_slots counter bin_id col cluster (e_category e)
                       (e_items e @ replicate (BIN_CAPACITY - length (e_items e)) '''')
                       [1 ..< BIN_CAPACITY + 1] of
                  Inl err \<Rightarrow> Inl err
                | Inr (rows, counter') \<Rightarrow>
                    (case write_bins sorter counter' all_bins of
                       Inl err \<Rightarrow> Inl err
                     | Inr rest \<Rightarrow> Inr (rows @ rest)))))"

text \<open>
  \<open>write_exhaustive_chest_csv\<close>: the data rows of the file, in the order written. A
  run that raises is an error value; the rows it wrote before are not kept.
\<close>

definition write_exhaustive_chest_csv :: "bin_entry dict \<Rightarrow> string list \<Rightarrow> error + row list" where
  "write_exhaustive_chest_csv sorter all_bins = write_bins sorter 1 all_bins"

section \<open>The pipeline\<close>

text \<open>
  \<open>main\<close>, from the pairs of the top-level objects of \<open>categories.json\<close> and
  \<open>category_layout.json\<close> to the data rows of \<open>sorter_layout.csv\<close>.
\<close>

definition main :: "(string \<times> string list) list \<Rightarrow> (string \<times> string list) list \<Rightarrow> error + row list" where
  "main categories_pairs layout_pairs =
     (case load_categories categories_pairs of
        Inl e \<Rightarrow> Inl e
      | Inr categories \<Rightarrow>
     (case load_layout layout_pairs of
        Inl e \<Rightarrow> Inl e
      | Inr layout \<Rightarrow>
     (case validate_same_categories categories layout of
        Inl e \<Rightarrow> Inl e
      | Inr _ \<Rightarrow>
     (case validate_layout_bins_unique layout of
        Inl e \<Rightarrow> Inl e
      | Inr _ \<Rightarrow>
     (case generate_all_bins ''A'' ''X'' of
        Inl e \<Rightarrow> Inl e
      | Inr all_bins \<Rightarrow>
     (case build_full_sorter categories layout all_bins of
        Inl e \<Rightarrow> Inl e
      | Inr sorter \<Rightarrow> write_exhaustive_chest_csv sorter all_bins))))))"

section \<open>Properties of the mapping loader\<close>

lemma update_fresh: "k \<notin> fst ` set al \<Longrightarrow> AList.update k v al = al @ [(k, v)]"
  by (induction al) auto

lemma hook_loop_obj:
  "distinct (map fst pairs) \<Longrightarrow> fst ` set obj \<inter> fst ` set pairs = {} \<Longrightarrow>
   fst (hook_loop obj seen dupes pairs) = obj @ pairs"
proof (induction pairs arbitrary: obj seen dupes)
  case Nil
  then show ?case by simp
next
  case (Cons p pairs)
  obtain k v where p: "p = (k, v)" by (cases p)
  from Cons.prems have fresh: "k \<notin> fst ` set obj" by (auto simp: p)
  have "fst ` set (obj @ [(k, v)]) \<inter> fst ` set pairs = {}"
    using Cons.prems by (auto simp: p)
  with Cons.IH [of "obj @ [(k, v)]"] Cons.prems show ?case
    by (simp add: p update_fresh [OF fresh])
qed

lemma count_list_pos_iff: "Suc 0 \<le> count_list xs k \<longleftrightarrow> k \<in> set xs"
  using count_list_0_iff [of xs k] by linarith

lemma hook_loop_dupes_set:
  "set (snd (hook_loop obj seen dupes pairs)) =
     set dupes \<union> {k \<in> fst ` set pairs. k \<in> set seen \<or> 2 \<le> count_list (map fst pairs) k}"
proof (induction pairs arbitrary: obj seen dupes)
  case Nil
  then show ?case by simp
next
  case (Cons p pairs)
  obtain k v where p: "p = (k, v)" by (cases p)
  show ?case
    unfolding p hook_loop.simps Cons.IH
    by (auto simp: count_list_pos_iff image_iff)
qed

lemma uniq_loop_set: "set (uniq_loop uniq ds) = set uniq \<union> set ds"
  by (induction ds arbitrary: uniq) auto

lemma uniq_loop_distinct: "distinct uniq \<Longrightarrow> distinct (uniq_loop uniq ds)"
  by (induction ds arbitrary: uniq) auto

lemma not_distinct_count_list: "\<not> distinct xs \<longleftrightarrow> (\<exists>k. 2 \<le> count_list xs k)"
proof (induction xs)
  case Nil
  then show ?case by simp
next
  case (Cons a xs)
  have "(\<exists>k. 2 \<le> count_list (a # xs) k) \<longleftrightarrow> a \<in> set xs \<or> (\<exists>k. 2 \<le> count_list xs k)"
  proof
    assume "\<exists>k. 2 \<le> count_list (a # xs) k"
    then obtain k where k: "2 \<le> count_list (a # xs) k" ..
    show "a \<in> set xs \<or> (\<exists>k. 2 \<le> count_list xs k)"
    proof (cases "a = k")
      case True
      with k have "Suc 0 \<le> count_list xs a" by simp
      then show ?thesis by (simp add: count_list_pos_iff)
    next
      case False
      with k show ?thesis by auto
    qed
  next
    assume "a \<in> set xs \<or> (\<exists>k. 2 \<le> count_list xs k)"
    then show "\<exists>k. 2 \<le> count_list (a # xs) k"
    proof
      assume "a \<in> set xs"
      then have "2 \<le> count_list (a # xs) a"
        using count_list_pos_iff [of xs a] by simp
      then show ?thesis ..
    next
      assume "\<exists>k. 2 \<le> count_list xs k"
      then obtain k where "2 \<le> count_list xs k" ..
      then have "2 \<le> count_list (a # xs) k" by simp
      then show ?thesis ..
    qed
  qed
  with Cons.IH show ?case by simp
qed

lemma repeated_keys_set:
  "{k \<in> fst ` set pairs. 2 \<le> count_list (map fst pairs) k} =
   {k. 2 \<le> count_list (map fst pairs) k}"
  using count_list_pos_iff [of "map fst pairs"] by force

lemma hook_dupes:
  "set (snd (hook_loop [] [] [] pairs)) = {k. 2 \<le> count_list (map fst pairs) k}"
  using hook_loop_dupes_set [of "[]" "[]" "[]" pairs] by (simp add: repeated_keys_set)

lemma hook_no_dupes: "snd (hook_loop [] [] [] pairs) = [] \<longleftrightarrow> distinct (map fst pairs)"
proof -
  have "snd (hook_loop [] [] [] pairs) = [] \<longleftrightarrow> set (snd (hook_loop [] [] [] pairs)) = {}"
    by simp
  also have "\<dots> \<longleftrightarrow> distinct (map fst pairs)"
    unfolding hook_dupes using not_distinct_count_list [of "map fst pairs"] by auto
  finally show ?thesis .
qed

lemma hook_Inr_iff:
  "no_dupes_object_pairs_hook path_name pairs = Inr obj \<longleftrightarrow>
     distinct (map fst pairs) \<and> obj = pairs"
proof -
  obtain obj' dupes where h: "hook_loop [] [] [] pairs = (obj', dupes)"
    by (cases "hook_loop [] [] [] pairs")
  have "distinct (map fst pairs) \<Longrightarrow> obj' = pairs"
    using hook_loop_obj [of pairs "[]" "[]" "[]"] by (simp add: h)
  then show ?thesis
    using hook_no_dupes [of pairs]
    by (auto simp: no_dupes_object_pairs_hook_def h)
qed

text \<open>
  Claim C4. When a key is repeated among the pairs of a document's top-level object,
  loading fails with the \<open>DuplicateKey\<close> error, which lists each repeated key exactly
  once (the list is duplicate-free and holds exactly the keys that occur at least
  twice); no mapping is returned, so no occurrence is silently dropped. When no key is
  repeated, the mapping returned holds every pair, in document order.
\<close>

theorem no_dupes_object_pairs_hook_duplicates:
  "(distinct (map fst pairs) \<longrightarrow> no_dupes_object_pairs_hook path_name pairs = Inr pairs) \<and>
   (\<not> distinct (map fst pairs) \<longrightarrow>
      (\<exists>uniq. no_dupes_object_pairs_hook path_name pairs = Inl (DuplicateKey path_name uniq) \<and>
              distinct uniq \<and> set uniq = {k. 2 \<le> count_list (map fst pairs) k}))"
proof -
  obtain obj dupes where h: "hook_loop [] [] [] pairs = (obj, dupes)"
    by (cases "hook_loop [] [] [] pairs")
  have dupes: "set dupes = {k. 2 \<le> count_list (map fst pairs) k}"
    using hook_dupes [of pairs] by (simp add: h)
  have empty: "dupes = [] \<longleftrightarrow> distinct (map fst pairs)"
    using hook_no_dupes [of pairs] by (simp add: h)
  have obj: "distinct (map fst pairs) \<Longrightarrow> obj = pairs"
    using hook_loop_obj [of pairs "[]" "[]" "[]"] by (simp add: h)
  show ?thesis
    using dupes empty obj
    by (simp add: no_dupes_object_pairs_hook_def h uniq_loop_set uniq_loop_distinct)
qed

theorem no_dupes_object_pairs_hook_duplicates_witness:
  "\<not> distinct (map fst [(''Tools'', [''Axe'']), (''Misc'', []), (''Tools'', [])]) \<and>
   (\<exists>uniq. no_dupes_object_pairs_hook ''categories.json''
             [(''Tools'', [''Axe'']), (''Misc'', []), (''Tools'', [])] =
             Inl (DuplicateKey ''categories.json'' uniq) \<and>
           distinct uniq \<and>
           set uniq =
             {k. 2 \<le> count_list (map fst [(''Tools'', [''Axe'']), (''Misc'', []), (''Tools'', [])]) k}) \<and>
   distinct (map fst [(''Tools'', [''Axe'']), (''Misc'', [])]) \<and>
   no_dupes_object_pairs_hook ''categories.json'' [(''Tools'', [''Axe'']), (''Misc'', [])] =
     Inr [(''Tools'', [''Axe'']), (''Misc'', [])]"
  using
    no_dupes_object_pairs_hook_duplicates
      [of "[(''Tools'', [''Axe'']), (''Misc'', []), (''Tools'', [])]" "''categories.json''"]
    no_dupes_object_pairs_hook_duplicates
      [of "[(''Tools'', [''Axe'']), (''Misc'', [])]" "''categories.json''"]
  by simp

section \<open>Properties of the packer\<close>

lemma sort_key_perm_inj:
  assumes "mset xs = mset ys" "inj_on f (set xs)"
  shows "sort_key f xs = sort_key f ys"
proof (rule sort_key_inj_key_eq)
  show "mset xs = mset (sort_key f ys)" using assms(1) by simp
  show "inj_on f (set xs)" by (rule assms(2))
  show "sorted (map f (sort_key f ys))" by (rule sorted_sort_key)
qed

lemma empty_bins_closed:
  "distinct bins \<Longrightarrow> fst ` set out \<inter> set bins = {} \<Longrightarrow>
   empty_bins out bins = out @ map (\<lambda>b. (b, [])) bins"
proof (induction bins arbitrary: out)
  case Nil
  then show ?case by simp
next
  case (Cons b bins)
  from Cons.prems have fresh: "b \<notin> fst ` set out" by auto
  have "fst ` set (out @ [(b, [])]) \<inter> set bins = {}" using Cons.prems by auto
  with Cons.IH [of "out @ [(b, [])]"] Cons.prems show ?case
    by (simp add: update_fresh [OF fresh])
qed

lemma update_middle:
  "b \<notin> fst ` set pre \<Longrightarrow> AList.update b v (pre @ (b, w) # post) = pre @ (b, v) # post"
  by (induction pre) auto

lemma zip_upt_Cons:
  "zip [k ..< k + length (b # bins)] (b # bins) = (k, b) # zip [Suc k ..< Suc k + length bins] bins"
  by (simp del: upt_Suc add: upt_conv_Cons)

lemma chunks_exhausted:
  "length xs \<le> 9 * k \<Longrightarrow>
   map (\<lambda>(j, b). (b, take 9 (drop (9 * j) xs))) (zip [k ..< k + length bins] bins) =
   map (\<lambda>b. (b, [])) bins"
proof (induction bins arbitrary: k)
  case Nil
  then show ?case by simp
next
  case (Cons b bins)
  have "length xs \<le> 9 * Suc k" using Cons.prems by simp
  from Cons.IH [OF this] Cons.prems show ?case
    unfolding zip_upt_Cons by simp
qed

lemma fill_loop_closed:
  "distinct bins \<Longrightarrow> fst ` set pre \<inter> set bins = {} \<Longrightarrow>
   fill_loop xs (pre @ map (\<lambda>b. (b, [])) bins) (9 * k) bins =
     pre @ map (\<lambda>(j, b). (b, take 9 (drop (9 * j) xs))) (zip [k ..< k + length bins] bins)"
proof (induction bins arbitrary: pre k)
  case Nil
  then show ?case by simp
next
  case (Cons b bins)
  from Cons.prems have fresh: "b \<notin> fst ` set pre" by auto
  let ?v = "take 9 (drop (9 * k) xs)"
  let ?rest = "map (\<lambda>b. (b, [])) bins"
  have upd: "AList.update b ?v (pre @ (b, []) # ?rest) = (pre @ [(b, ?v)]) @ ?rest"
    by (simp add: update_middle [OF fresh])
  have disj: "fst ` set (pre @ [(b, ?v)]) \<inter> set bins = {}" using Cons.prems by auto
  have dist: "distinct bins" using Cons.prems by simp
  have step: "fill_loop xs (pre @ map (\<lambda>b. (b, [])) (b # bins)) (9 * k) (b # bins) =
      (if length xs \<le> 9 * Suc k then (pre @ [(b, ?v)]) @ ?rest
       else fill_loop xs ((pre @ [(b, ?v)]) @ ?rest) (9 * Suc k) bins)"
    using upd by (simp add: BIN_CAPACITY_def Let_def add.commute)
  show ?case
  proof (cases "length xs \<le> 9 * Suc k")
    case True
    from chunks_exhausted [OF True, of bins] True show ?thesis
      unfolding step zip_upt_Cons by simp
  next
    case False
    from Cons.IH [OF dist disj, of "Suc k"] False show ?thesis
      unfolding step zip_upt_Cons by simp
  qed
qed

lemma fill_bins_closed:
  assumes "distinct bins" "length items \<le> length bins * 9"
  shows "fill_bins_for_category items bins =
           Inr (map (\<lambda>(j, b). (b, take 9 (drop (9 * j) (sort_key casefold items))))
                  (zip [0 ..< length bins] bins))"
  using assms fill_loop_closed [of bins "[]" "sort_key casefold items" 0]
    empty_bins_closed [of bins "[]"]
  by (simp add: fill_bins_for_category_def BIN_CAPACITY_def)

lemma find_dupes_empty:
  "find_dupes seen dupes bins = [] \<longleftrightarrow> dupes = [] \<and> distinct bins \<and> set bins \<inter> set seen = {}"
  by (induction bins arbitrary: seen dupes) auto

lemma collect_category_dupes_empty:
  "collect_category_dupes acc layout = [] \<longleftrightarrow>
     acc = [] \<and> (\<forall>(c, bins) \<in> set layout. find_dupes [] [] bins = [])"
proof (induction layout arbitrary: acc)
  case Nil
  then show ?case by simp
next
  case (Cons p layout)
  obtain c bins where p: "p = (c, bins)" by (cases p)
  let ?d = "find_dupes [] [] bins"
  have step: "collect_category_dupes acc (p # layout) =
      collect_category_dupes (if ?d \<noteq> [] then AList.update c ?d acc else acc) layout"
    by (simp add: p)
  have "(if ?d \<noteq> [] then AList.update c ?d acc else acc) = [] \<longleftrightarrow> ?d = [] \<and> acc = []"
    by simp
  then show ?case
    unfolding step Cons.IH by (auto simp: p)
qed

lemma validate_layout_bins_unique_distinct:
  assumes "validate_layout_bins_unique layout = Inr ()" "(c, bins) \<in> set layout"
  shows "distinct bins"
proof -
  have "collect_category_dupes [] layout = []"
  proof (rule ccontr)
    assume "collect_category_dupes [] layout \<noteq> []"
    then have "\<exists>e. validate_layout_bins_unique layout = Inl e"
      unfolding validate_layout_bins_unique_def Let_def by simp
    with assms(1) show False by simp
  qed
  with assms(2) have "find_dupes [] [] bins = []"
    unfolding collect_category_dupes_empty by auto
  then show ?thesis by (simp add: find_dupes_empty)
qed

lemma concat_chunks:
  "concat (map (\<lambda>j. take 9 (drop (9 * j) xs)) [k ..< k + n]) = take (9 * n) (drop (9 * k) xs)"
proof (induction n arbitrary: k)
  case 0
  then show ?case by simp
next
  case (Suc n)
  have "[k ..< k + Suc n] = k # [Suc k ..< Suc k + n]"
    by (simp del: upt_Suc add: upt_conv_Cons)
  moreover have "take 9 (drop (9 * k) xs) @ take (9 * n) (drop (9 * Suc k) xs) =
                 take (9 * Suc n) (drop (9 * k) xs)"
    using take_add [of 9 "9 * n" "drop (9 * k) xs"] by (simp add: add.commute)
  ultimately show ?case using Suc.IH [of "Suc k"] by simp
qed

lemma map_snd_zip_chunks:
  "map snd (map (\<lambda>(j, b). (b, f j)) (zip [k ..< k + length bins] bins)) = map f [k ..< k + length bins]"
proof (induction bins arbitrary: k)
  case Nil
  then show ?case by simp
next
  case (Cons b bins)
  have "[k ..< k + length (b # bins)] = k # [Suc k ..< Suc k + length bins]"
    by (simp del: upt_Suc add: upt_conv_Cons)
  with Cons.IH [of "Suc k"] show ?case
    unfolding zip_upt_Cons by simp
qed

lemma map_fst_zip_chunks:
  "map fst (map (\<lambda>(j, b). (b, f j)) (zip [k ..< k + length bins] bins)) = bins"
proof (induction bins arbitrary: k)
  case Nil
  then show ?case by simp
next
  case (Cons b bins)
  from Cons.IH [of "Suc k"] show ?case
    unfolding zip_upt_Cons by simp
qed

lemma map_of_zip_chunks:
  "distinct bins \<Longrightarrow> j < length bins \<Longrightarrow>
   map_of (map (\<lambda>(j, b). (b, f j)) (zip [k ..< k + length bins] bins)) (bins ! j) = Some (f (k + j))"
proof (induction bins arbitrary: k j)
  case Nil
  then show ?case by simp
next
  case (Cons b bins)
  show ?case
  proof (cases j)
    case 0
    then show ?thesis unfolding zip_upt_Cons by simp
  next
    case (Suc i)
    with Cons.prems have i: "i < length bins" and d: "distinct bins" and ne: "bins ! i \<noteq> b"
      by auto
    from Cons.IH [OF d i, of "Suc k"] ne Suc show ?thesis
      unfolding zip_upt_Cons by simp
  qed
qed

text \<open>
  Claim C7. Packing a category fails exactly when the number of its items exceeds nine
  times the number of its bins, and the error then carries the item count, the capacity
  and the list of bins (the three values the message prints).
\<close>

theorem fill_bins_for_category_capacity:
  "fill_bins_for_category items bins = Inl e \<longleftrightarrow>
     length bins * 9 < length items \<and> e = CapacityError (length items) (length bins * 9) bins"
  by (auto simp: fill_bins_for_category_def BIN_CAPACITY_def Let_def)

theorem fill_bins_for_category_capacity_witness:
  "fill_bins_for_category [''a'', ''b'', ''c'', ''d'', ''e'', ''f'', ''g'', ''h'', ''i'', ''j''] [''A1''] =
     Inl (CapacityError 10 9 [''A1'']) \<and>
   (\<forall>e. fill_bins_for_category [''a'', ''b'', ''c'', ''d'', ''e'', ''f'', ''g'', ''h'', ''i''] [''A1''] \<noteq> Inl e)"
  using fill_bins_for_category_capacity [of "[''a'', ''b'', ''c'', ''d'', ''e'', ''f'', ''g'', ''h'', ''i'', ''j'']" "[''A1'']"]
    fill_bins_for_category_capacity [of "[''a'', ''b'', ''c'', ''d'', ''e'', ''f'', ''g'', ''h'', ''i'']" "[''A1'']"]
  by simp

text \<open>
  Claim C2, as amended. Two item lists that are permutations of each other are packed
  into identical per-bin lists provided no two distinct item names are equal under case
  folding. (The sort is stable: names that differ only in case keep their input order,
  so without the proviso the packed order does depend on the input order.)
\<close>

theorem fill_bins_for_category_permutation:
  assumes "mset xs = mset ys" "inj_on casefold (set xs)"
  shows "fill_bins_for_category xs bins = fill_bins_for_category ys bins"
  using sort_key_perm_inj [OF assms] by (simp add: fill_bins_for_category_def)

theorem fill_bins_for_category_permutation_witness:
  "mset [''b'', ''A''] = mset [''A'', ''b''] \<and> inj_on casefold (set [''b'', ''A'']) \<and>
   fill_bins_for_category [''b'', ''A''] [''A1''] = fill_bins_for_category [''A'', ''b''] [''A1'']"
proof -
  have h1: "mset [''b'', ''A''] = mset [''A'', ''b'']" by simp
  have "casefold ''b'' \<noteq> casefold ''A''" by code_simp
  then have h2: "inj_on casefold (set [''b'', ''A''])" by (simp add: inj_on_def)
  show ?thesis
    by (rule conjI [OF h1 conjI [OF h2 fill_bins_for_category_permutation [OF h1 h2]]])
qed

text \<open>
  Claim C2 as stated fails: \<open>["a", "A"]\<close> and \<open>["A", "a"]\<close> are permutations of each
  other and are packed differently.
\<close>

theorem fill_bins_for_category_permutation_counterexample:
  "mset [''a'', ''A''] = mset [''A'', ''a''] \<and>
   fill_bins_for_category [''a'', ''A''] [''A1''] = Inr [(''A1'', [''a'', ''A''])] \<and>
   fill_bins_for_category [''A'', ''a''] [''A1''] = Inr [(''A1'', [''A'', ''a''])] \<and>
   fill_bins_for_category [''a'', ''A''] [''A1''] \<noteq> fill_bins_for_category [''A'', ''a''] [''A1'']"
  by code_simp

text \<open>
  Claim C5. For a category of a layout that passed the bin-uniqueness check, whose items
  number at most nine per bin: packing succeeds; the bins are filled in the order the
  layout lists them; the bin at position \<open>j\<close> receives the \<open>j\<close>-th chunk of nine of the
  items sorted by case-folded name (ascending, every item kept); the chunks, put
  together in bin order, are the whole sorted list; and a bin that lies past the last
  item receives the empty list.
\<close>

theorem fill_bins_for_category_chunks:
  assumes "validate_layout_bins_unique layout = Inr ()"
    and "(category, bins) \<in> set layout"
    and "length items \<le> length bins * 9"
  shows "\<exists>filled. fill_bins_for_category items bins = Inr filled \<and>
           map fst filled = bins \<and>
           concat (map snd filled) = sort_key casefold items \<and>
           sorted (map casefold (sort_key casefold items)) \<and>
           mset (sort_key casefold items) = mset items \<and>
           (\<forall>j<length bins.
              map_of filled (bins ! j) = Some (take 9 (drop (9 * j) (sort_key casefold items))) \<and>
              (length items \<le> 9 * j \<longrightarrow> map_of filled (bins ! j) = Some []))"
proof -
  let ?xs = "sort_key casefold items"
  let ?filled = "map (\<lambda>(j, b). (b, take 9 (drop (9 * j) ?xs))) (zip [0 ..< 0 + length bins] bins)"
  have d: "distinct bins" using assms(1,2) by (rule validate_layout_bins_unique_distinct)
  have 1: "fill_bins_for_category items bins = Inr ?filled"
    using fill_bins_closed [OF d assms(3)] by simp
  have 2: "map fst ?filled = bins" by (rule map_fst_zip_chunks)
  have 3: "concat (map snd ?filled) = ?xs"
    unfolding map_snd_zip_chunks concat_chunks using assms(3) by simp
  have 4: "map_of ?filled (bins ! j) = Some (take 9 (drop (9 * j) ?xs))" if "j < length bins" for j
    using map_of_zip_chunks [OF d that, of "\<lambda>j. take 9 (drop (9 * j) ?xs)" 0] by simp
  have 5: "map_of ?filled (bins ! j) = Some []" if "j < length bins" "length items \<le> 9 * j" for j
    using 4 [OF that(1)] that(2) by simp
  show ?thesis
  proof (rule exI [of _ ?filled], intro conjI allI impI)
    show "fill_bins_for_category items bins = Inr ?filled" by (rule 1)
    show "map fst ?filled = bins" by (rule 2)
    show "concat (map snd ?filled) = ?xs" by (rule 3)
    show "sorted (map casefold ?xs)" by (rule sorted_sort_key)
    show "mset ?xs = mset items" by (rule mset_sort)
    show "map_of ?filled (bins ! j) = Some (take 9 (drop (9 * j) ?xs))" if "j < length bins" for j
      using that by (rule 4)
    show "map_of ?filled (bins ! j) = Some []" if "j < length bins" "length items \<le> 9 * j" for j
      using that by (rule 5)
  qed
qed

theorem fill_bins_for_category_chunks_witness:
  "validate_layout_bins_unique [(''Tools'', [''B2'', ''A1''])] = Inr () \<and>
   (''Tools'', [''B2'', ''A1'']) \<in> set [(''Tools'', [''B2'', ''A1''])] \<and>
   length [''b'', ''C'', ''a''] \<le> length [''B2'', ''A1''] * 9 \<and>
   (\<exists>filled. fill_bins_for_category [''b'', ''C'', ''a''] [''B2'', ''A1''] = Inr filled \<and>
           map fst filled = [''B2'', ''A1''] \<and>
           concat (map snd filled) = sort_key casefold [''b'', ''C'', ''a''] \<and>
           sorted (map casefold (sort_key casefold [''b'', ''C'', ''a''])) \<and>
           mset (sort_key casefold [''b'', ''C'', ''a'']) = mset [''b'', ''C'', ''a''] \<and>
           (\<forall>j<length [''B2'', ''A1''].
              map_of filled ([''B2'', ''A1''] ! j) =
                Some (take 9 (drop (9 * j) (sort_key casefold [''b'', ''C'', ''a'']))) \<and>
              (length [''b'', ''C'', ''a''] \<le> 9 * j \<longrightarrow>
                 map_of filled ([''B2'', ''A1''] ! j) = Some [])))"
proof -
  have h1: "validate_layout_bins_unique [(''Tools'', [''B2'', ''A1''])] = Inr ()"
    by code_simp
  have h2: "(''Tools'', [''B2'', ''A1'']) \<in> set [(''Tools'', [''B2'', ''A1''])]"
    by simp
  have h3: "length [''b'', ''C'', ''a''] \<le> length [''B2'', ''A1''] * 9"
    by simp
  show ?thesis
    by (rule conjI [OF h1 conjI [OF h2 conjI [OF h3 fill_bins_for_category_chunks [OF h1 h2 h3]]]])
qed

section \<open>Properties of the packing stage\<close>

lemma find_append:
  "find P (xs @ ys) = (case find P xs of None \<Rightarrow> find P ys | Some x \<Rightarrow> Some x)"
  by (induction xs) auto

lemma map_of_unused_bins:
  "map_of (unused_bins d all_bins) b = (if b \<in> set all_bins then Some ''UNUSED'' else map_of d b)"
  by (induction all_bins arbitrary: d) (auto simp: update_conv')

lemma keys_unused_bins: "fst ` set (unused_bins d all_bins) = fst ` set d \<union> set all_bins"
  by (induction all_bins arbitrary: d) (auto simp: dom_update)

lemma assign_bins_Inr:
  "assign_bins m c bins = Inr m' \<Longrightarrow>
     fst ` set m' = fst ` set m \<and> set bins \<subseteq> fst ` set m \<and>
     (\<forall>b. map_of m' b = (if b \<in> set bins then Some c else map_of m b))"
proof (induction bins arbitrary: m)
  case Nil
  then show ?case by simp
next
  case (Cons b bins)
  from Cons.prems obtain v where v: "map_of m b = Some v"
    by (cases "map_of m b") auto
  then have bk: "b \<in> fst ` set m" by (metis map_of_eq_None_iff option.distinct(1))
  from Cons.prems v have "assign_bins (AList.update b c m) c bins = Inr m'" by simp
  from Cons.IH [OF this] bk show ?case
    by (auto simp: dom_update update_conv')
qed

lemma assign_bins_find:
  "assign_bins m c bins =
     (case find (\<lambda>b. b \<notin> fst ` set m) bins of
        Some b \<Rightarrow> Inl (OutOfRangeError b)
      | None \<Rightarrow> Inr (fold (\<lambda>b. AList.update b c) bins m))"
proof (induction bins arbitrary: m)
  case Nil
  then show ?case by simp
next
  case (Cons b bins)
  show ?case
  proof (cases "map_of m b")
    case None
    then have "b \<notin> fst ` set m" by (simp add: map_of_eq_None_iff)
    with None show ?thesis by simp
  next
    case (Some v)
    then have bk: "b \<in> fst ` set m" by (metis map_of_eq_None_iff option.distinct(1))
    then have "fst ` set (AList.update b c m) = fst ` set m" by (auto simp: dom_update)
    with Cons.IH [of "AList.update b c m"] Some bk show ?thesis
      by (simp split: option.splits)
  qed
qed

lemma assign_layout_Inr:
  "assign_layout m layout = Inr m' \<Longrightarrow>
     fst ` set m' = fst ` set m \<and> set (concat (map snd layout)) \<subseteq> fst ` set m \<and>
     (\<forall>b. b \<notin> set (concat (map snd layout)) \<longrightarrow> map_of m' b = map_of m b)"
proof (induction layout arbitrary: m)
  case Nil
  then show ?case by simp
next
  case (Cons p layout)
  obtain c bins where p: "p = (c, bins)" by (cases p)
  from Cons.prems obtain m1 where 1: "assign_bins m c bins = Inr m1"
    and 2: "assign_layout m1 layout = Inr m'"
    by (auto simp: p split: sum.splits)
  from assign_bins_Inr [OF 1] Cons.IH [OF 2] show ?case
    by (auto simp: p)
qed

lemma assign_layout_find:
  "find (\<lambda>b. b \<notin> fst ` set m) (concat (map snd layout)) = Some b \<Longrightarrow>
   assign_layout m layout = Inl (OutOfRangeError b)"
proof (induction layout arbitrary: m)
  case Nil
  then show ?case by simp
next
  case (Cons p layout)
  obtain c bins where p: "p = (c, bins)" by (cases p)
  show ?case
  proof (cases "find (\<lambda>b. b \<notin> fst ` set m) bins")
    case None
    with assign_bins_find [of m c bins] obtain m1 where 1: "assign_bins m c bins = Inr m1"
      by simp
    from assign_bins_Inr [OF 1] have k: "fst ` set m1 = fst ` set m" by simp
    from Cons.prems None have "find (\<lambda>b. b \<notin> fst ` set m1) (concat (map snd layout)) = Some b"
      by (simp add: p k find_append)
    from Cons.IH [OF this] 1 show ?thesis by (simp add: p)
  next
    case (Some b')
    with Cons.prems have "b' = b" by (simp add: p find_append)
    with Some assign_bins_find [of m c bins] show ?thesis by (simp add: p)
  qed
qed

lemma assign_layout_total:
  "find (\<lambda>b. b \<notin> fst ` set m) (concat (map snd layout)) = None \<Longrightarrow>
   \<exists>m'. assign_layout m layout = Inr m'"
proof (induction layout arbitrary: m)
  case Nil
  then show ?case by simp
next
  case (Cons p layout)
  obtain c bins where p: "p = (c, bins)" by (cases p)
  from Cons.prems have n1: "find (\<lambda>b. b \<notin> fst ` set m) bins = None"
    and n2: "find (\<lambda>b. b \<notin> fst ` set m) (concat (map snd layout)) = None"
    by (auto simp: p find_append split: option.splits)
  from n1 assign_bins_find [of m c bins] obtain m1 where 1: "assign_bins m c bins = Inr m1"
    by simp
  from assign_bins_Inr [OF 1] have k: "fst ` set m1 = fst ` set m" by simp
  from n2 have "find (\<lambda>b. b \<notin> fst ` set m1) (concat (map snd layout)) = None" by (simp add: k)
  from Cons.IH [OF this] 1 show ?case by (simp add: p)
qed

lemma build_bin_to_category_find:
  "find (\<lambda>b. b \<notin> set all_bins) (concat (map snd layout)) = Some b \<Longrightarrow>
   build_bin_to_category all_bins layout = Inl (OutOfRangeError b)"
  unfolding build_bin_to_category_def
  by (rule assign_layout_find) (simp add: keys_unused_bins)

lemma build_bin_to_category_Inr:
  assumes "build_bin_to_category all_bins layout = Inr m"
  shows "fst ` set m = set all_bins"
    and "set (concat (map snd layout)) \<subseteq> set all_bins"
    and "b \<in> set all_bins \<Longrightarrow> b \<notin> set (concat (map snd layout)) \<Longrightarrow> map_of m b = Some ''UNUSED''"
  using assign_layout_Inr [OF assms [unfolded build_bin_to_category_def]]
  by (simp_all add: keys_unused_bins map_of_unused_bins)

lemma map_of_Some_key: "map_of m b = Some v \<Longrightarrow> b \<in> fst ` set m"
  by (metis map_of_eq_None_iff option.distinct(1))

lemma key_map_of_Some: "b \<in> fst ` set m \<Longrightarrow> \<exists>v. map_of m b = Some v"
  by (cases "map_of m b") (auto simp: map_of_eq_None_iff)

lemma prefill_Inr:
  "set bs \<subseteq> fst ` set b2c \<Longrightarrow>
   \<exists>s'. prefill b2c s bs = Inr s' \<and> fst ` set s' = fst ` set s \<union> set bs \<and>
        (\<forall>b. map_of s' b =
               (if b \<in> set bs
                then map_option (\<lambda>c. \<lparr>e_category = c, e_items = []\<rparr>) (map_of b2c b)
                else map_of s b))"
proof (induction bs arbitrary: s)
  case Nil
  then show ?case by simp
next
  case (Cons b bs)
  from Cons.prems obtain c where c: "map_of b2c b = Some c"
    using key_map_of_Some [of b b2c] by auto
  let ?s = "AList.update b \<lparr>e_category = c, e_items = []\<rparr> s"
  from Cons.prems have "set bs \<subseteq> fst ` set b2c" by simp
  from Cons.IH [OF this, of ?s] obtain s' where
    1: "prefill b2c ?s bs = Inr s'" and
    2: "fst ` set s' = fst ` set ?s \<union> set bs" and
    3: "\<forall>b'. map_of s' b' =
               (if b' \<in> set bs
                then map_option (\<lambda>c. \<lparr>e_category = c, e_items = []\<rparr>) (map_of b2c b')
                else map_of ?s b')"
    by blast
  have "prefill b2c s (b # bs) = Inr s'" using 1 c by simp
  moreover have "fst ` set s' = fst ` set s \<union> set (b # bs)" using 2 by (auto simp: dom_update)
  moreover have "\<forall>b'. map_of s' b' =
               (if b' \<in> set (b # bs)
                then map_option (\<lambda>c. \<lparr>e_category = c, e_items = []\<rparr>) (map_of b2c b')
                else map_of s b')"
    using 3 c by (simp add: update_conv')
  ultimately show ?case by blast
qed

lemma store_items_Inr:
  "set bins \<subseteq> fst ` set s \<Longrightarrow>
   \<exists>s'. store_items filled s bins = Inr s' \<and> fst ` set s' = fst ` set s \<and>
        (\<forall>b. b \<notin> set bins \<longrightarrow> map_of s' b = map_of s b)"
proof (induction bins arbitrary: s)
  case Nil
  then show ?case by simp
next
  case (Cons b bins)
  from Cons.prems obtain e where e: "map_of s b = Some e"
    using key_map_of_Some [of b s] by auto
  let ?s = "AList.update b (e\<lparr>e_items := (case map_of filled b of None \<Rightarrow> [] | Some xs \<Rightarrow> xs)\<rparr>) s"
  have k: "fst ` set ?s = fst ` set s" using Cons.prems by (auto simp: dom_update)
  with Cons.prems have "set bins \<subseteq> fst ` set ?s" by simp
  from Cons.IH [OF this] obtain s' where
    1: "store_items filled ?s bins = Inr s'" and
    2: "fst ` set s' = fst ` set ?s" and
    3: "\<forall>b'. b' \<notin> set bins \<longrightarrow> map_of s' b' = map_of ?s b'"
    by blast
  have "store_items filled s (b # bins) = Inr s'" using 1 e by simp
  moreover have "fst ` set s' = fst ` set s" using 2 k by simp
  moreover have "\<forall>b'. b' \<notin> set (b # bins) \<longrightarrow> map_of s' b' = map_of s b'"
    using 3 by (simp add: update_conv')
  ultimately show ?case by blast
qed

lemma fill_bins_for_category_cases:
  "(\<exists>filled. fill_bins_for_category items bins = Inr filled) \<or>
   (\<exists>n cap. fill_bins_for_category items bins = Inl (CapacityError n cap bins))"
  by (simp add: fill_bins_for_category_def Let_def)

lemma fill_layout_cases:
  "set (concat (map snd layout)) \<subseteq> fst ` set s \<Longrightarrow>
   fst ` set layout \<subseteq> fst ` set categories \<Longrightarrow>
   (\<exists>s'. fill_layout categories s layout = Inr s' \<and> fst ` set s' = fst ` set s \<and>
         (\<forall>b. b \<notin> set (concat (map snd layout)) \<longrightarrow> map_of s' b = map_of s b)) \<or>
   (\<exists>n cap bs. fill_layout categories s layout = Inl (CapacityError n cap bs))"
proof (induction layout arbitrary: s)
  case Nil
  then show ?case by simp
next
  case (Cons p layout)
  obtain c bins where p: "p = (c, bins)" by (cases p)
  from Cons.prems(2) obtain its where its: "map_of categories c = Some its"
    using key_map_of_Some [of c categories] by (auto simp: p)
  from fill_bins_for_category_cases [of its bins] show ?case
  proof
    assume "\<exists>filled. fill_bins_for_category its bins = Inr filled"
    then obtain filled where f: "fill_bins_for_category its bins = Inr filled" ..
    from Cons.prems(1) have "set bins \<subseteq> fst ` set s" by (simp add: p)
    from store_items_Inr [OF this, of filled] obtain s1 where
      1: "store_items filled s bins = Inr s1" and
      2: "fst ` set s1 = fst ` set s" and
      3: "\<forall>b. b \<notin> set bins \<longrightarrow> map_of s1 b = map_of s b"
      by blast
    have step: "fill_layout categories s (p # layout) = fill_layout categories s1 layout"
      using its f 1 by (simp add: p)
    from Cons.prems have a: "set (concat (map snd layout)) \<subseteq> fst ` set s1"
      and b: "fst ` set layout \<subseteq> fst ` set categories"
      by (auto simp: p 2)
    from Cons.IH [OF a b] show ?thesis
    proof
      assume "\<exists>s'. fill_layout categories s1 layout = Inr s' \<and> fst ` set s' = fst ` set s1 \<and>
         (\<forall>b. b \<notin> set (concat (map snd layout)) \<longrightarrow> map_of s' b = map_of s1 b)"
      then obtain s' where 4: "fill_layout categories s1 layout = Inr s'"
        and 5: "fst ` set s' = fst ` set s1"
        and 6: "\<forall>b. b \<notin> set (concat (map snd layout)) \<longrightarrow> map_of s' b = map_of s1 b"
        by blast
      have "\<forall>b. b \<notin> set (concat (map snd (p # layout))) \<longrightarrow> map_of s' b = map_of s b"
        using 3 6 by (simp add: p)
      with 4 5 2 step show ?thesis by auto
    next
      assume "\<exists>n cap bs. fill_layout categories s1 layout = Inl (CapacityError n cap bs)"
      with step show ?thesis by simp
    qed
  next
    assume "\<exists>n cap. fill_bins_for_category its bins = Inl (CapacityError n cap bins)"
    then obtain n cap where "fill_bins_for_category its bins = Inl (CapacityError n cap bins)"
      by blast
    then have "fill_layout categories s (p # layout) = Inl (CapacityError n cap bins)"
      using its by (simp add: p)
    then show ?thesis by blast
  qed
qed

lemma sort_key_Nil_iff: "sort_key f xs = [] \<longleftrightarrow> xs = []"
  by (metis length_sort length_0_conv)

lemma validate_same_categories_Inr:
  "validate_same_categories categories layout = Inr () \<longleftrightarrow>
     fst ` set categories = fst ` set layout"
  by (auto simp: validate_same_categories_def Let_def sort_key_Nil_iff filter_empty_conv)

lemma find_None_subset: "find (\<lambda>b. b \<notin> A) xs = None \<longleftrightarrow> set xs \<subseteq> A"
  by (auto simp: find_None_iff)

lemma find_Some_outside: "find (\<lambda>b. b \<notin> A) xs = Some b \<Longrightarrow> b \<in> set xs \<and> b \<notin> A"
  by (auto simp: find_Some_iff)

lemma build_bin_to_category_total:
  "set (concat (map snd layout)) \<subseteq> set all_bins \<Longrightarrow>
   \<exists>m. build_bin_to_category all_bins layout = Inr m"
  unfolding build_bin_to_category_def
  by (rule assign_layout_total) (simp add: keys_unused_bins find_None_subset)

lemma build_full_sorter_out_of_range:
  "find (\<lambda>b. b \<notin> set all_bins) (concat (map snd layout)) = Some b \<Longrightarrow>
   build_full_sorter categories layout all_bins = Inl (OutOfRangeError b)"
  by (simp add: build_full_sorter_def build_bin_to_category_find)

lemma build_full_sorter_in_range:
  assumes "set (concat (map snd layout)) \<subseteq> set all_bins"
  shows "\<exists>s. build_full_sorter categories layout all_bins = fill_layout categories s layout \<and>
             fst ` set s = set all_bins \<and>
             (\<forall>b\<in>set all_bins. b \<notin> set (concat (map snd layout)) \<longrightarrow>
                map_of s b = Some \<lparr>e_category = ''UNUSED'', e_items = []\<rparr>)"
proof -
  from build_bin_to_category_total [OF assms] obtain m where
    m: "build_bin_to_category all_bins layout = Inr m" ..
  note mk = build_bin_to_category_Inr [OF m]
  have "set all_bins \<subseteq> fst ` set m" using mk(1) by simp
  from prefill_Inr [OF this, of "[]"] obtain s where
    1: "prefill m [] all_bins = Inr s" and
    2: "fst ` set s = fst ` set ([] :: bin_entry dict) \<union> set all_bins" and
    3: "\<forall>b. map_of s b =
               (if b \<in> set all_bins
                then map_option (\<lambda>c. \<lparr>e_category = c, e_items = []\<rparr>) (map_of m b)
                else map_of ([] :: bin_entry dict) b)"
    by blast
  have "build_full_sorter categories layout all_bins = fill_layout categories s layout"
    using m 1 by (simp add: build_full_sorter_def)
  moreover have "fst ` set s = set all_bins" using 2 by simp
  moreover have "\<forall>b\<in>set all_bins. b \<notin> set (concat (map snd layout)) \<longrightarrow>
                map_of s b = Some \<lparr>e_category = ''UNUSED'', e_items = []\<rparr>"
    using 3 mk(3) by simp
  ultimately show ?thesis by blast
qed

lemma build_full_sorter_cases:
  assumes "fst ` set layout \<subseteq> fst ` set categories"
  shows "(\<exists>sorter. build_full_sorter categories layout all_bins = Inr sorter \<and>
            fst ` set sorter = set all_bins \<and>
            set (concat (map snd layout)) \<subseteq> set all_bins \<and>
            (\<forall>b\<in>set all_bins. b \<notin> set (concat (map snd layout)) \<longrightarrow>
               map_of sorter b = Some \<lparr>e_category = ''UNUSED'', e_items = []\<rparr>)) \<or>
         (\<exists>b. build_full_sorter categories layout all_bins = Inl (OutOfRangeError b)) \<or>
         (\<exists>n cap bs. build_full_sorter categories layout all_bins = Inl (CapacityError n cap bs))"
proof (cases "find (\<lambda>b. b \<notin> set all_bins) (concat (map snd layout))")
  case (Some b)
  from build_full_sorter_out_of_range [OF this] show ?thesis by blast
next
  case None
  then have sub: "set (concat (map snd layout)) \<subseteq> set all_bins" by (simp add: find_None_subset)
  from build_full_sorter_in_range [OF sub, of categories] obtain s where
    1: "build_full_sorter categories layout all_bins = fill_layout categories s layout" and
    2: "fst ` set s = set all_bins" and
    3: "\<forall>b\<in>set all_bins. b \<notin> set (concat (map snd layout)) \<longrightarrow>
                map_of s b = Some \<lparr>e_category = ''UNUSED'', e_items = []\<rparr>"
    by blast
  have sub': "set (concat (map snd layout)) \<subseteq> fst ` set s" using sub 2 by simp
  from fill_layout_cases [OF sub' assms] show ?thesis
  proof
    assume "\<exists>s'. fill_layout categories s layout = Inr s' \<and> fst ` set s' = fst ` set s \<and>
         (\<forall>b. b \<notin> set (concat (map snd layout)) \<longrightarrow> map_of s' b = map_of s b)"
    then obtain s' where 4: "fill_layout categories s layout = Inr s'"
      and 5: "fst ` set s' = fst ` set s"
      and 6: "\<forall>b. b \<notin> set (concat (map snd layout)) \<longrightarrow> map_of s' b = map_of s b"
      by blast
    have "\<forall>b\<in>set all_bins. b \<notin> set (concat (map snd layout)) \<longrightarrow>
               map_of s' b = Some \<lparr>e_category = ''UNUSED'', e_items = []\<rparr>"
      using 3 6 by simp
    with 1 2 4 5 sub show ?thesis by simp
  next
    assume "\<exists>n cap bs. fill_layout categories s layout = Inl (CapacityError n cap bs)"
    with 1 show ?thesis by simp
  qed
qed

text \<open>
  Claim C10. When the category-parity check has passed, every category of the layout
  has an item list in the categories mapping, and \<open>build_full_sorter\<close> can fail only
  with the out-of-range error or the capacity error: no dictionary read in it raises
  \<open>KeyError\<close>.
\<close>

theorem build_full_sorter_errors:
  assumes "validate_same_categories categories layout = Inr ()"
  shows "(\<forall>(category, bins) \<in> set layout. \<exists>items. map_of categories category = Some items) \<and>
         (\<forall>e. build_full_sorter categories layout all_bins = Inl e \<longrightarrow>
              (\<exists>b. e = OutOfRangeError b) \<or> (\<exists>n cap bins. e = CapacityError n cap bins))"
proof -
  from assms have keys: "fst ` set categories = fst ` set layout"
    by (simp add: validate_same_categories_Inr)
  have 1: "\<forall>(category, bins) \<in> set layout. \<exists>items. map_of categories category = Some items"
  proof (clarify)
    fix category bins
    assume "(category, bins) \<in> set layout"
    then have "category \<in> fst ` set categories" using keys by force
    then show "\<exists>items. map_of categories category = Some items" by (rule key_map_of_Some)
  qed
  have sub: "fst ` set layout \<subseteq> fst ` set categories" using keys by simp
  have 2: "(\<exists>b. e = OutOfRangeError b) \<or> (\<exists>n cap bins. e = CapacityError n cap bins)"
    if "build_full_sorter categories layout all_bins = Inl e" for e
    using build_full_sorter_cases [OF sub, of all_bins] that by auto
  from 1 2 show ?thesis by blast
qed

theorem build_full_sorter_errors_witness:
  "validate_same_categories [(''Tools'', [''Axe'']), (''Misc'', [])]
     [(''Misc'', [''Z9'']), (''Tools'', [''A1''])] = Inr () \<and>
   build_full_sorter [(''Tools'', [''Axe'']), (''Misc'', [])]
     [(''Misc'', [''Z9'']), (''Tools'', [''A1''])] [''A1'', ''A2''] = Inl (OutOfRangeError ''Z9'') \<and>
   (\<exists>items. map_of [(''Tools'', [''Axe'']), (''Misc'', [])] ''Misc'' = Some items)"
proof -
  have h: "validate_same_categories [(''Tools'', [''Axe'']), (''Misc'', [])]
     [(''Misc'', [''Z9'']), (''Tools'', [''A1''])] = Inr ()"
    by code_simp
  have r: "build_full_sorter [(''Tools'', [''Axe'']), (''Misc'', [])]
     [(''Misc'', [''Z9'']), (''Tools'', [''A1''])] [''A1'', ''A2''] = Inl (OutOfRangeError ''Z9'')"
    by code_simp
  from build_full_sorter_errors [OF h, of "[''A1'', ''A2'']"] h r show ?thesis by simp
qed

section \<open>Properties of the slot table emitter\<close>

lemma parse_bin_Inr:
  "parse_bin bin_id = Inr (col, cl) \<Longrightarrow>
     \<exists>c d. bin_id = [c, d] \<and> col = [c] \<and> c \<in> set ascii_uppercase \<and>
           (d = CHR ''1'' \<and> cl = 1 \<or> d = CHR ''2'' \<and> cl = 2)"
  by (auto simp: parse_bin_def split: list.splits if_splits)

lemma parse_bin_length: "parse_bin bin_id = Inr (col, cl) \<Longrightarrow> length bin_id = 2"
  by (auto dest: parse_bin_Inr)

lemma write_slots_Inr:
  "write_slots c b col cl cat its slots = Inr (rows, c') \<Longrightarrow>
     c' = c + length slots \<and>
     map row_counter rows = [c ..< c + length slots] \<and>
     map chest_id rows = map (\<lambda>s. b @ ''-'' @ str_nat s) slots \<and>
     map col_letter rows = map (\<lambda>s. col) slots \<and>
     map cluster_num rows = map (\<lambda>s. cl) slots \<and>
     map slot_num rows = slots \<and>
     map row_category rows = map (\<lambda>s. cat) slots \<and>
     map desc rows = map (\<lambda>s. its ! (s - 1)) slots"
proof (induction slots arbitrary: c rows)
  case Nil
  then show ?case by simp
next
  case (Cons s slots)
  from Cons.prems obtain d rest where
    d: "list_get its (s - 1) = Inr d" and
    r: "write_slots (c + 1) b col cl cat its slots = Inr (rest, c')" and
    rows: "rows = \<lparr>row_counter = c, chest_id = b @ ''-'' @ str_nat s,
                     col_letter = col, cluster_num = cl, slot_num = s,
                     row_category = cat, desc = d\<rparr> # rest"
    by (auto split: sum.splits prod.splits)
  from d have d': "d = its ! (s - 1)" by (auto simp: list_get_def split: if_splits)
  have u: "[c ..< c + length (s # slots)] = c # [c + 1 ..< c + 1 + length slots]"
    by (simp del: upt_Suc add: upt_conv_Cons)
  from Cons.IH [OF r] show ?case
    unfolding rows u by (simp add: d')
qed

lemma write_slots_total:
  "\<forall>s\<in>set slots. s - 1 < length its \<Longrightarrow>
   \<exists>rows c'. write_slots c b col cl cat its slots = Inr (rows, c')"
proof (induction slots arbitrary: c)
  case Nil
  then show ?case by simp
next
  case (Cons s slots)
  from Cons.prems have "\<forall>s\<in>set slots. s - 1 < length its" by simp
  from Cons.IH [OF this, of "c + 1"] obtain rest c' where
    "write_slots (c + 1) b col cl cat its slots = Inr (rest, c')" by blast
  with Cons.prems show ?case by (simp add: list_get_def)
qed

lemma padded_length: "9 \<le> length (its @ replicate (9 - length its) x)"
  by simp

lemma padded_take:
  "map (\<lambda>s. (its @ replicate (9 - length its) x) ! (s - 1)) [1 ..< 10] =
   take 9 (its @ replicate (9 - length its) x)"
proof -
  let ?p = "its @ replicate (9 - length its) x"
  have "length ?p \<ge> 9" by simp
  then have "take 9 ?p = map (\<lambda>i. ?p ! i) [0 ..< 9]"
    by (metis (no_types, lifting) min.absorb2 length_take map_nth nth_take map_eq_conv atLeastLessThan_iff set_upt take_map)
  also have "\<dots> = map (\<lambda>s. ?p ! (s - 1)) (map Suc [0 ..< 9])"
    by simp
  also have "map Suc [0 ..< 9] = [1 ..< 10]"
    by (simp only: map_Suc_upt) simp
  finally show ?thesis by simp
qed

lemma write_bins_Cons_Inr:
  assumes "write_bins sorter c (b # bins) = Inr rows"
  shows "\<exists>col cl e rows_b rest.
           parse_bin b = Inr (col, cl) \<and> map_of sorter b = Some e \<and>
           write_slots c b col cl (e_category e)
             (e_items e @ replicate (9 - length (e_items e)) '''') [1 ..< 10] = Inr (rows_b, c + 9) \<and>
           write_bins sorter (c + 9) bins = Inr rest \<and> rows = rows_b @ rest"
proof -
  from assms obtain col cl where p: "parse_bin b = Inr (col, cl)"
    by (cases "parse_bin b") (auto split: prod.splits)
  from assms p obtain e where e: "map_of sorter b = Some e"
    by (cases "map_of sorter b") auto
  let ?its = "e_items e @ replicate (9 - length (e_items e)) ''''"
  from assms p e obtain rows_b c' where
    w: "write_slots c b col cl (e_category e) ?its [1 ..< 10] = Inr (rows_b, c')"
    by (cases "write_slots c b col cl (e_category e) ?its [1 ..< 10]")
       (auto simp: BIN_CAPACITY_def split: prod.splits)
  from write_slots_Inr [OF w] have c': "c' = c + 9" by simp
  from assms p e w obtain rest where
    r: "write_bins sorter c' bins = Inr rest" and rows: "rows = rows_b @ rest"
    by (cases "write_bins sorter c' bins") (auto simp: BIN_CAPACITY_def)
  from p e w r rows show ?thesis unfolding c' by blast
qed

lemma write_bins_counter:
  "write_bins sorter c bins = Inr rows \<Longrightarrow> map row_counter rows = [c ..< c + 9 * length bins]"
proof (induction bins arbitrary: c rows)
  case Nil
  then show ?case by simp
next
  case (Cons b bins)
  from write_bins_Cons_Inr [OF Cons.prems] obtain col cl e rows_b rest where
    e: "map_of sorter b = Some e" and
    w: "write_slots c b col cl (e_category e)
             (e_items e @ replicate (9 - length (e_items e)) '''') [1 ..< 10] = Inr (rows_b, c + 9)"
    and r: "write_bins sorter (c + 9) bins = Inr rest" and rows: "rows = rows_b @ rest"
    by blast
  from write_slots_Inr [OF w] have 1: "map row_counter rows_b = [c ..< c + 9]" by simp
  from Cons.IH [OF r] have 2: "map row_counter rest = [c + 9 ..< c + 9 + 9 * length bins]" .
  have "[c ..< c + 9 * length (b # bins)] = [c ..< c + 9] @ [c + 9 ..< c + 9 + 9 * length bins]"
    using upt_add_eq_append [of c "c + 9" "9 * length bins"] by (simp add: add.assoc)
  with 1 2 show ?case unfolding rows by simp
qed

lemma write_bins_chest_id:
  "write_bins sorter c bins = Inr rows \<Longrightarrow>
   map chest_id rows = concat (map (\<lambda>b. map (\<lambda>s. b @ ''-'' @ str_nat s) [1 ..< 10]) bins)"
proof (induction bins arbitrary: c rows)
  case Nil
  then show ?case by simp
next
  case (Cons b bins)
  from write_bins_Cons_Inr [OF Cons.prems] obtain col cl e rows_b rest where
    e: "map_of sorter b = Some e" and
    w: "write_slots c b col cl (e_category e)
             (e_items e @ replicate (9 - length (e_items e)) '''') [1 ..< 10] = Inr (rows_b, c + 9)"
    and r: "write_bins sorter (c + 9) bins = Inr rest" and rows: "rows = rows_b @ rest"
    by blast
  from write_slots_Inr [OF w] have 1: "map chest_id rows_b = map (\<lambda>s. b @ ''-'' @ str_nat s) [1 ..< 10]"
    by simp
  from Cons.IH [OF r] 1 show ?case unfolding rows by simp
qed

lemma write_bins_slot_num:
  "write_bins sorter c bins = Inr rows \<Longrightarrow>
   map slot_num rows = concat (map (\<lambda>b. [1 ..< 10]) bins)"
proof (induction bins arbitrary: c rows)
  case Nil
  then show ?case by simp
next
  case (Cons b bins)
  from write_bins_Cons_Inr [OF Cons.prems] obtain col cl e rows_b rest where
    e: "map_of sorter b = Some e" and
    w: "write_slots c b col cl (e_category e)
             (e_items e @ replicate (9 - length (e_items e)) '''') [1 ..< 10] = Inr (rows_b, c + 9)"
    and r: "write_bins sorter (c + 9) bins = Inr rest" and rows: "rows = rows_b @ rest"
    by blast
  from write_slots_Inr [OF w] have 1: "map slot_num rows_b = [1 ..< 10]"
    by simp
  from Cons.IH [OF r] 1 show ?case unfolding rows by simp
qed

lemma bin_block_filter:
  assumes "write_slots c b' col cl cat its slots = Inr (rows_b, c')" "length b' = 2"
  shows "filter (\<lambda>r. take 2 (chest_id r) = b) rows_b = (if b = b' then rows_b else [])"
proof -
  from write_slots_Inr [OF assms(1)]
  have m: "map chest_id rows_b = map (\<lambda>s. b' @ ''-'' @ str_nat s) slots" by simp
  have "take 2 (chest_id r) = b'" if "r \<in> set rows_b" for r
  proof -
    from that have "chest_id r \<in> set (map chest_id rows_b)" by simp
    then obtain s where "chest_id r = b' @ ''-'' @ str_nat s" unfolding m by auto
    with assms(2) show ?thesis by simp
  qed
  then show ?thesis by (auto simp: filter_empty_conv filter_id_conv)
qed

lemma write_bins_filter_none:
  "write_bins sorter c bins = Inr rows \<Longrightarrow> b \<notin> set bins \<Longrightarrow>
   filter (\<lambda>r. take 2 (chest_id r) = b) rows = []"
proof (induction bins arbitrary: c rows)
  case Nil
  then show ?case by simp
next
  case (Cons b' bins)
  from write_bins_Cons_Inr [OF Cons.prems(1)] obtain col cl e rows_b rest where
    p: "parse_bin b' = Inr (col, cl)" and e: "map_of sorter b' = Some e" and
    w: "write_slots c b' col cl (e_category e)
             (e_items e @ replicate (9 - length (e_items e)) '''') [1 ..< 10] = Inr (rows_b, c + 9)"
    and r: "write_bins sorter (c + 9) bins = Inr rest" and rows: "rows = rows_b @ rest"
    by blast
  from Cons.prems(2) have ne: "b \<noteq> b'" and nin: "b \<notin> set bins" by auto
  from bin_block_filter [OF w parse_bin_length [OF p], of b] ne Cons.IH [OF r nin]
  show ?case unfolding rows by simp
qed

lemma write_bins_filter:
  "write_bins sorter c bins = Inr rows \<Longrightarrow> distinct bins \<Longrightarrow> b \<in> set bins \<Longrightarrow>
   map_of sorter b = Some e \<Longrightarrow>
   map desc (filter (\<lambda>r. take 2 (chest_id r) = b) rows) =
     take 9 (e_items e @ replicate (9 - length (e_items e)) '''') \<and>
   map row_category (filter (\<lambda>r. take 2 (chest_id r) = b) rows) = replicate 9 (e_category e) \<and>
   map slot_num (filter (\<lambda>r. take 2 (chest_id r) = b) rows) = [1 ..< 10]"
proof (induction bins arbitrary: c rows)
  case Nil
  then show ?case by simp
next
  case (Cons b' bins)
  from write_bins_Cons_Inr [OF Cons.prems(1)] obtain col cl e' rows_b rest where
    p: "parse_bin b' = Inr (col, cl)" and e': "map_of sorter b' = Some e'" and
    w: "write_slots c b' col cl (e_category e')
             (e_items e' @ replicate (9 - length (e_items e')) '''') [1 ..< 10] = Inr (rows_b, c + 9)"
    and r: "write_bins sorter (c + 9) bins = Inr rest" and rows: "rows = rows_b @ rest"
    by blast
  note blk = bin_block_filter [OF w parse_bin_length [OF p], of b]
  show ?case
  proof (cases "b = b'")
    case True
    with Cons.prems(2) have "b \<notin> set bins" by simp
    from write_bins_filter_none [OF r this]
    have f: "filter (\<lambda>r. take 2 (chest_id r) = b) rows = rows_b"
      unfolding rows using blk True by simp
    from True e' Cons.prems(4) have ee: "e' = e" by simp
    from write_slots_Inr [OF w]
    have "map desc rows_b = map (\<lambda>s. (e_items e @ replicate (9 - length (e_items e)) '''') ! (s - 1)) [1 ..< 10]"
      and "map row_category rows_b = map (\<lambda>s. e_category e) [1 ..< 10]"
      and "map slot_num rows_b = [1 ..< 10]"
      unfolding ee by simp_all
    then show ?thesis unfolding f padded_take by (simp add: map_replicate_const)
  next
    case False
    with Cons.prems have d: "distinct bins" and i: "b \<in> set bins" by auto
    from Cons.IH [OF r d i Cons.prems(4)] blk False show ?thesis
      unfolding rows by simp
  qed
qed

lemma write_bins_total:
  "\<forall>b\<in>set bins. (\<exists>col cl. parse_bin b = Inr (col, cl)) \<and> b \<in> fst ` set sorter \<Longrightarrow>
   \<exists>rows. write_bins sorter c bins = Inr rows"
proof (induction bins arbitrary: c)
  case Nil
  then show ?case by simp
next
  case (Cons b bins)
  from Cons.prems obtain col cl where p: "parse_bin b = Inr (col, cl)" by auto
  from Cons.prems obtain e where e: "map_of sorter b = Some e"
    using key_map_of_Some [of b sorter] by auto
  let ?its = "e_items e @ replicate (9 - length (e_items e)) ''''"
  have "\<forall>s\<in>set [1 ..< 10]. s - 1 < length ?its" by auto
  from write_slots_total [OF this] obtain rows_b c' where
    w: "write_slots c b col cl (e_category e) ?its [1 ..< 10] = Inr (rows_b, c')" by blast
  from Cons.prems have "\<forall>b\<in>set bins. (\<exists>col cl. parse_bin b = Inr (col, cl)) \<and> b \<in> fst ` set sorter"
    by simp
  from Cons.IH [OF this, of c'] obtain rest where "write_bins sorter c' bins = Inr rest" ..
  with p e w show ?case by (simp add: BIN_CAPACITY_def)
qed

section \<open>Properties of the pipeline\<close>

lemma generate_all_bins_AX:
  "generate_all_bins ''A'' ''X'' =
     Inr [''A1'', ''A2'', ''B1'', ''B2'', ''C1'', ''C2'', ''D1'', ''D2'', ''E1'', ''E2'', ''F1'', ''F2'',
          ''G1'', ''G2'', ''H1'', ''H2'', ''I1'', ''I2'', ''J1'', ''J2'', ''K1'', ''K2'', ''L1'', ''L2'',
          ''M1'', ''M2'', ''N1'', ''N2'', ''O1'', ''O2'', ''P1'', ''P2'', ''Q1'', ''Q2'', ''R1'', ''R2'',
          ''S1'', ''S2'', ''T1'', ''T2'', ''U1'', ''U2'', ''V1'', ''V2'', ''W1'', ''W2'', ''X1'', ''X2'']"
  by code_simp

lemma generate_all_bins_AX_props:
  assumes "generate_all_bins ''A'' ''X'' = Inr all_bins"
  shows "length all_bins = 48" and "distinct all_bins"
    and "\<forall>b\<in>set all_bins. \<exists>col cl. parse_bin b = Inr (col, cl)"
proof -
  from assms have a: "all_bins =
        [''A1'', ''A2'', ''B1'', ''B2'', ''C1'', ''C2'', ''D1'', ''D2'', ''E1'', ''E2'', ''F1'', ''F2'',
          ''G1'', ''G2'', ''H1'', ''H2'', ''I1'', ''I2'', ''J1'', ''J2'', ''K1'', ''K2'', ''L1'', ''L2'',
          ''M1'', ''M2'', ''N1'', ''N2'', ''O1'', ''O2'', ''P1'', ''P2'', ''Q1'', ''Q2'', ''R1'', ''R2'',
          ''S1'', ''S2'', ''T1'', ''T2'', ''U1'', ''U2'', ''V1'', ''V2'', ''W1'', ''W2'', ''X1'', ''X2'']"
    by (simp add: generate_all_bins_AX)
  show "length all_bins = 48" unfolding a by simp
  show "distinct all_bins" unfolding a by code_simp
  have "list_all (\<lambda>b. \<not> isl (parse_bin b)) all_bins" unfolding a by code_simp
  then show "\<forall>b\<in>set all_bins. \<exists>col cl. parse_bin b = Inr (col, cl)"
    unfolding list_all_iff
    by (metis isl_def old.sum.exhaust surj_pair)
qed

lemma load_Inr:
  "load_categories cp = Inr categories \<longleftrightarrow> distinct (map fst cp) \<and> categories = cp"
  "load_layout lp = Inr layout \<longleftrightarrow> distinct (map fst lp) \<and> layout = lp"
  by (simp_all add: load_categories_def load_layout_def hook_Inr_iff)

lemma load_cases:
  "load_categories cp = Inr cp \<or> (\<exists>e. load_categories cp = Inl e \<and> \<not> distinct (map fst cp))"
  "load_layout lp = Inr lp \<or> (\<exists>e. load_layout lp = Inl e \<and> \<not> distinct (map fst lp))"
proof -
  show "load_categories cp = Inr cp \<or> (\<exists>e. load_categories cp = Inl e \<and> \<not> distinct (map fst cp))"
    using load_Inr(1) [of cp] by (cases "load_categories cp") auto
  show "load_layout lp = Inr lp \<or> (\<exists>e. load_layout lp = Inl e \<and> \<not> distinct (map fst lp))"
    using load_Inr(2) [of lp] by (cases "load_layout lp") auto
qed

lemma main_loaded:
  assumes "load_categories cp = Inr cp" "load_layout lp = Inr lp"
  shows "main cp lp =
     (case validate_same_categories cp lp of
        Inl e \<Rightarrow> Inl e
      | Inr _ \<Rightarrow>
     (case validate_layout_bins_unique lp of
        Inl e \<Rightarrow> Inl e
      | Inr _ \<Rightarrow>
     (case generate_all_bins ''A'' ''X'' of
        Inl e \<Rightarrow> Inl e
      | Inr all_bins \<Rightarrow>
     (case build_full_sorter cp lp all_bins of
        Inl e \<Rightarrow> Inl e
      | Inr sorter \<Rightarrow> write_exhaustive_chest_csv sorter all_bins))))"
  unfolding main_def assms by simp

lemma main_Inr_iff:
  "main cp lp = Inr rows \<longleftrightarrow>
     load_categories cp = Inr cp \<and> load_layout lp = Inr lp \<and>
     validate_same_categories cp lp = Inr () \<and> validate_layout_bins_unique lp = Inr () \<and>
     (\<exists>all_bins sorter. generate_all_bins ''A'' ''X'' = Inr all_bins \<and>
        build_full_sorter cp lp all_bins = Inr sorter \<and>
        write_exhaustive_chest_csv sorter all_bins = Inr rows)"
proof (cases "load_categories cp = Inr cp \<and> load_layout lp = Inr lp")
  case True
  then have c: "load_categories cp = Inr cp" and l: "load_layout lp = Inr lp" by simp_all
  show ?thesis
    unfolding main_loaded [OF c l] using c l
    by (auto split: sum.splits)
next
  case False
  with load_cases(1) [of cp] load_cases(2) [of lp]
  have "\<exists>e. main cp lp = Inl e"
    unfolding main_def by (auto split: sum.splits)
  with False show ?thesis by auto
qed

lemma fill_layout_total:
  "set (concat (map snd layout)) \<subseteq> fst ` set s \<Longrightarrow>
   \<forall>(c, bins)\<in>set layout. \<exists>its. map_of categories c = Some its \<and> length its \<le> length bins * 9 \<Longrightarrow>
   \<exists>s'. fill_layout categories s layout = Inr s' \<and> fst ` set s' = fst ` set s"
proof (induction layout arbitrary: s)
  case Nil
  then show ?case by simp
next
  case (Cons p layout)
  obtain c bins where p: "p = (c, bins)" by (cases p)
  from Cons.prems(2) obtain its where its: "map_of categories c = Some its"
    and cap: "length its \<le> length bins * 9"
    by (auto simp: p)
  from cap obtain filled where f: "fill_bins_for_category its bins = Inr filled"
    by (auto simp: fill_bins_for_category_def BIN_CAPACITY_def Let_def)
  from Cons.prems(1) have "set bins \<subseteq> fst ` set s" by (simp add: p)
  from store_items_Inr [OF this, of filled] obtain s1 where
    1: "store_items filled s bins = Inr s1" and 2: "fst ` set s1 = fst ` set s"
    by blast
  from Cons.prems have a: "set (concat (map snd layout)) \<subseteq> fst ` set s1"
    and b: "\<forall>(c, bins)\<in>set layout. \<exists>its. map_of categories c = Some its \<and> length its \<le> length bins * 9"
    by (auto simp: p 2)
  from Cons.IH [OF a b] obtain s' where "fill_layout categories s1 layout = Inr s'"
    and "fst ` set s' = fst ` set s1" by blast
  with its f 1 2 show ?case by (simp add: p)
qed

lemma build_full_sorter_total:
  assumes "set (concat (map snd layout)) \<subseteq> set all_bins"
    and "\<forall>(c, bins)\<in>set layout. \<exists>its. map_of categories c = Some its \<and> length its \<le> length bins * 9"
  shows "\<exists>sorter. build_full_sorter categories layout all_bins = Inr sorter \<and>
                  fst ` set sorter = set all_bins"
proof -
  from build_full_sorter_in_range [OF assms(1), of categories] obtain s where
    1: "build_full_sorter categories layout all_bins = fill_layout categories s layout" and
    2: "fst ` set s = set all_bins"
    by blast
  from assms(1) 2 have "set (concat (map snd layout)) \<subseteq> fst ` set s" by simp
  from fill_layout_total [OF this assms(2)] 1 2 show ?thesis by auto
qed

lemma main_success:
  assumes "load_categories cp = Inr cp" "load_layout lp = Inr lp"
    and "validate_same_categories cp lp = Inr ()" "validate_layout_bins_unique lp = Inr ()"
    and "generate_all_bins ''A'' ''X'' = Inr all_bins"
    and "set (concat (map snd lp)) \<subseteq> set all_bins"
    and "\<forall>(c, bins)\<in>set lp. \<exists>its. map_of cp c = Some its \<and> length its \<le> length bins * 9"
  shows "\<exists>rows. main cp lp = Inr rows"
proof -
  from build_full_sorter_total [OF assms(6,7)] obtain sorter where
    s: "build_full_sorter cp lp all_bins = Inr sorter" and k: "fst ` set sorter = set all_bins"
    by blast
  from generate_all_bins_AX_props(3) [OF assms(5)] k
  have "\<forall>b\<in>set all_bins. (\<exists>col cl. parse_bin b = Inr (col, cl)) \<and> b \<in> fst ` set sorter"
    by simp
  from write_bins_total [OF this, of 1] obtain rows where "write_bins sorter 1 all_bins = Inr rows" ..
  then have "write_exhaustive_chest_csv sorter all_bins = Inr rows"
    by (simp add: write_exhaustive_chest_csv_def)
  with assms(1-5) s have "main cp lp = Inr rows"
    unfolding main_Inr_iff by blast
  then show ?thesis ..
qed

lemma main_runs:
  "\<exists>rows. main [(''Tools'', [''Axe'', ''axe2'']), (''Food'', [])]
              [(''Tools'', [''B2'']), (''Food'', [''A1'', ''X2''])] = Inr rows"
proof (rule main_success [OF _ _ _ _ generate_all_bins_AX])
  show "load_categories [(''Tools'', [''Axe'', ''axe2'']), (''Food'', [])] =
          Inr [(''Tools'', [''Axe'', ''axe2'']), (''Food'', [])]"
    by (simp add: load_Inr)
  show "load_layout [(''Tools'', [''B2'']), (''Food'', [''A1'', ''X2''])] =
          Inr [(''Tools'', [''B2'']), (''Food'', [''A1'', ''X2''])]"
    by (simp add: load_Inr)
  show "validate_same_categories [(''Tools'', [''Axe'', ''axe2'']), (''Food'', [])]
          [(''Tools'', [''B2'']), (''Food'', [''A1'', ''X2''])] = Inr ()"
    by code_simp
  show "validate_layout_bins_unique [(''Tools'', [''B2'']), (''Food'', [''A1'', ''X2''])] = Inr ()"
    by code_simp
qed simp_all

text \<open>
  Claim C6. Whenever the run emits a manifest, the generated bins are \<open>A1, A2, B1, B2,
  \<dots>, X2\<close>, the manifest has \<open>24 * 2 * 9 = 432\<close> data rows, the row counter takes the
  values \<open>1, 2, \<dots>, 432\<close> in this order, and the rows come bin by bin in the generated
  order with the slot numbers \<open>1\<close> to \<open>9\<close> ascending within each bin.
\<close>

theorem main_rows_enumeration:
  assumes "main cp lp = Inr rows"
  shows "generate_all_bins ''A'' ''X'' =
           Inr [''A1'', ''A2'', ''B1'', ''B2'', ''C1'', ''C2'', ''D1'', ''D2'', ''E1'', ''E2'', ''F1'', ''F2'',
                ''G1'', ''G2'', ''H1'', ''H2'', ''I1'', ''I2'', ''J1'', ''J2'', ''K1'', ''K2'', ''L1'', ''L2'',
                ''M1'', ''M2'', ''N1'', ''N2'', ''O1'', ''O2'', ''P1'', ''P2'', ''Q1'', ''Q2'', ''R1'', ''R2'',
                ''S1'', ''S2'', ''T1'', ''T2'', ''U1'', ''U2'', ''V1'', ''V2'', ''W1'', ''W2'', ''X1'', ''X2''] \<and>
         length rows = 432 \<and>
         map row_counter rows = [1 ..< 433] \<and>
         map chest_id rows =
           concat (map (\<lambda>b. map (\<lambda>s. b @ ''-'' @ str_nat s) [1 ..< 10])
             [''A1'', ''A2'', ''B1'', ''B2'', ''C1'', ''C2'', ''D1'', ''D2'', ''E1'', ''E2'', ''F1'', ''F2'',
              ''G1'', ''G2'', ''H1'', ''H2'', ''I1'', ''I2'', ''J1'', ''J2'', ''K1'', ''K2'', ''L1'', ''L2'',
              ''M1'', ''M2'', ''N1'', ''N2'', ''O1'', ''O2'', ''P1'', ''P2'', ''Q1'', ''Q2'', ''R1'', ''R2'',
              ''S1'', ''S2'', ''T1'', ''T2'', ''U1'', ''U2'', ''V1'', ''V2'', ''W1'', ''W2'', ''X1'', ''X2'']) \<and>
         map slot_num rows = concat (replicate 48 [1 ..< 10])"
proof -
  let ?bins = "[''A1'', ''A2'', ''B1'', ''B2'', ''C1'', ''C2'', ''D1'', ''D2'', ''E1'', ''E2'', ''F1'', ''F2'',
                ''G1'', ''G2'', ''H1'', ''H2'', ''I1'', ''I2'', ''J1'', ''J2'', ''K1'', ''K2'', ''L1'', ''L2'',
                ''M1'', ''M2'', ''N1'', ''N2'', ''O1'', ''O2'', ''P1'', ''P2'', ''Q1'', ''Q2'', ''R1'', ''R2'',
                ''S1'', ''S2'', ''T1'', ''T2'', ''U1'', ''U2'', ''V1'', ''V2'', ''W1'', ''W2'', ''X1'', ''X2'']"
  from assms obtain sorter where w: "write_bins sorter 1 ?bins = Inr rows"
    unfolding main_Inr_iff generate_all_bins_AX write_exhaustive_chest_csv_def by auto
  have len: "length ?bins = 48" by simp
  have c: "map row_counter rows = [1 ..< 433]"
    using write_bins_counter [OF w] unfolding len by simp
  have "length rows = length (map row_counter rows)" by simp
  also have "\<dots> = 432" unfolding c by simp
  finally have l: "length rows = 432" .
  have s: "map slot_num rows = concat (replicate 48 [1 ..< 10])"
    using write_bins_slot_num [OF w] unfolding map_replicate_const len by simp
  show ?thesis
    using generate_all_bins_AX l c write_bins_chest_id [OF w] s by (intro conjI)
qed

theorem main_rows_enumeration_witness:
  "\<exists>rows. main [(''Tools'', [''Axe'', ''axe2'']), (''Food'', [])]
              [(''Tools'', [''B2'']), (''Food'', [''A1'', ''X2''])] = Inr rows \<and>
          length rows = 432 \<and> map row_counter rows = [1 ..< 433]"
proof -
  from main_runs obtain rows where
    r: "main [(''Tools'', [''Axe'', ''axe2'']), (''Food'', [])]
              [(''Tools'', [''B2'']), (''Food'', [''A1'', ''X2''])] = Inr rows" ..
  from main_rows_enumeration [OF r] r show ?thesis by blast
qed

lemma write_bins_entries:
  "write_bins sorter c bins = Inr rows \<Longrightarrow> b \<in> set bins \<Longrightarrow> \<exists>e. map_of sorter b = Some e"
proof (induction bins arbitrary: c rows)
  case Nil
  then show ?case by simp
next
  case (Cons b' bins)
  from write_bins_Cons_Inr [OF Cons.prems(1)] obtain e rest where
    e: "map_of sorter b' = Some e" and r: "write_bins sorter (c + 9) bins = Inr rest"
    by blast
  show ?case
  proof (cases "b = b'")
    case True
    with e show ?thesis by blast
  next
    case False
    with Cons.prems(2) have "b \<in> set bins" by simp
    from Cons.IH [OF r this] show ?thesis .
  qed
qed

lemma main_Inr_D:
  assumes "main cp lp = Inr rows" "generate_all_bins ''A'' ''X'' = Inr all_bins"
  shows "\<exists>sorter. build_full_sorter cp lp all_bins = Inr sorter \<and>
                  write_bins sorter 1 all_bins = Inr rows"
  using assms unfolding main_Inr_iff write_exhaustive_chest_csv_def by auto

lemma main_bin_rows:
  assumes "main cp lp = Inr rows" and "generate_all_bins ''A'' ''X'' = Inr all_bins"
    and "build_full_sorter cp lp all_bins = Inr sorter" and "b \<in> set all_bins"
  shows "\<exists>e. map_of sorter b = Some e \<and>
           length (filter (\<lambda>r. take 2 (chest_id r) = b) rows) = 9 \<and>
           map slot_num (filter (\<lambda>r. take 2 (chest_id r) = b) rows) = [1 ..< 10] \<and>
           map row_category (filter (\<lambda>r. take 2 (chest_id r) = b) rows) = replicate 9 (e_category e) \<and>
           map desc (filter (\<lambda>r. take 2 (chest_id r) = b) rows) =
             take 9 (e_items e @ replicate (9 - length (e_items e)) '''')"
proof -
  let ?R = "filter (\<lambda>r. take 2 (chest_id r) = b) rows"
  from main_Inr_D [OF assms(1,2)] assms(3) have w: "write_bins sorter 1 all_bins = Inr rows"
    by auto
  from write_bins_entries [OF w assms(4)] obtain e where e: "map_of sorter b = Some e" ..
  note d = generate_all_bins_AX_props(2) [OF assms(2)]
  note f = write_bins_filter [OF w d assms(4) e]
  from f have ms: "map slot_num ?R = [1 ..< 10]" by simp
  have "length ?R = length (map slot_num ?R)" by simp
  also have "\<dots> = 9" unfolding ms by simp
  finally have l: "length ?R = 9" .
  from e l f show ?thesis by blast
qed

lemma count_nonempty_padded:
  "length (filter (\<lambda>x. x \<noteq> '''') (take 9 (its @ replicate (9 - length its) ''''))) =
   length (filter (\<lambda>x. x \<noteq> '''') (take 9 its))"
  by simp

lemma length_filter_desc:
  "length (filter (\<lambda>r. desc r \<noteq> '''') rs) = length (filter (\<lambda>x. x \<noteq> '''') (map desc rs))"
  by (induction rs) auto

lemma count_nonempty_min:
  assumes "'''' \<notin> set its"
  shows "length (filter (\<lambda>x. x \<noteq> '''') (take 9 its)) = min 9 (length its)"
proof -
  have "\<forall>x\<in>set (take 9 its). x \<noteq> ''''"
    using assms by (metis in_set_takeD)
  then have "filter (\<lambda>x. x \<noteq> '''') (take 9 its) = take 9 its"
    by (simp add: filter_id_conv)
  then show ?thesis by (simp add: min.commute)
qed

lemma sorter_runs:
  "(case build_full_sorter [(''Tools'', [''Axe'', ''axe2'']), (''Food'', [])] [(''Tools'', [''B2'']), (''Food'', [''A1'', ''X2''])]
      [''A1'', ''A2'', ''B1'', ''B2'', ''C1'', ''C2'', ''D1'', ''D2'', ''E1'', ''E2'', ''F1'', ''F2'',
      ''G1'', ''G2'', ''H1'', ''H2'', ''I1'', ''I2'', ''J1'', ''J2'', ''K1'', ''K2'', ''L1'', ''L2'',
      ''M1'', ''M2'', ''N1'', ''N2'', ''O1'', ''O2'', ''P1'', ''P2'', ''Q1'', ''Q2'', ''R1'', ''R2'',
      ''S1'', ''S2'', ''T1'', ''T2'', ''U1'', ''U2'', ''V1'', ''V2'', ''W1'', ''W2'', ''X1'', ''X2'']
    of Inr s \<Rightarrow> map_option e_items (map_of s ''B2'') | Inl _ \<Rightarrow> None) = Some [''Axe'', ''axe2'']"
  by code_simp

lemma main_runs_empty_name:
  "\<exists>rows. main [(''Tools'', [''''])] [(''Tools'', [''A1''])] = Inr rows"
proof (rule main_success [OF _ _ _ _ generate_all_bins_AX])
  show "load_categories [(''Tools'', [''''])] = Inr [(''Tools'', [''''])]"
    by (simp add: load_Inr)
  show "load_layout [(''Tools'', [''A1''])] = Inr [(''Tools'', [''A1''])]"
    by (simp add: load_Inr)
  show "validate_same_categories [(''Tools'', [''''])] [(''Tools'', [''A1''])] = Inr ()"
    by code_simp
  show "validate_layout_bins_unique [(''Tools'', [''A1''])] = Inr ()"
    by code_simp
qed simp_all

lemma sorter_runs_empty_name:
  "(case build_full_sorter [(''Tools'', [''''])] [(''Tools'', [''A1''])]
      [''A1'', ''A2'', ''B1'', ''B2'', ''C1'', ''C2'', ''D1'', ''D2'', ''E1'', ''E2'', ''F1'', ''F2'',
      ''G1'', ''G2'', ''H1'', ''H2'', ''I1'', ''I2'', ''J1'', ''J2'', ''K1'', ''K2'', ''L1'', ''L2'',
      ''M1'', ''M2'', ''N1'', ''N2'', ''O1'', ''O2'', ''P1'', ''P2'', ''Q1'', ''Q2'', ''R1'', ''R2'',
      ''S1'', ''S2'', ''T1'', ''T2'', ''U1'', ''U2'', ''V1'', ''V2'', ''W1'', ''W2'', ''X1'', ''X2'']
    of Inr s \<Rightarrow> map_option e_items (map_of s ''A1'') | Inl _ \<Rightarrow> None) = Some ['''']"
  by code_simp

text \<open>
  The rows of a bin are the rows whose \<open>ChestID\<close> starts with the two characters of
  the bin id.

  Claim C3, as amended. Whenever the run emits a manifest, every generated bin has an
  entry in the sorter and exactly nine rows, and the number of those rows with a
  non-empty \<open>Description\<close> is the number of non-empty names among the first nine items
  assigned to the bin; it is \<open>min(9, items assigned)\<close> provided no item assigned to the
  bin is the empty string.
\<close>

theorem main_descriptions_count:
  assumes "main cp lp = Inr rows" and "generate_all_bins ''A'' ''X'' = Inr all_bins"
    and "build_full_sorter cp lp all_bins = Inr sorter" and "b \<in> set all_bins"
  shows "\<exists>e. map_of sorter b = Some e \<and>
           length (filter (\<lambda>r. take 2 (chest_id r) = b) rows) = 9 \<and>
           length (filter (\<lambda>r. desc r \<noteq> '''') (filter (\<lambda>r. take 2 (chest_id r) = b) rows)) =
             length (filter (\<lambda>x. x \<noteq> '''') (take 9 (e_items e))) \<and>
           ('''' \<notin> set (e_items e) \<longrightarrow>
              length (filter (\<lambda>r. desc r \<noteq> '''') (filter (\<lambda>r. take 2 (chest_id r) = b) rows)) =
                min 9 (length (e_items e)))"
proof -
  let ?R = "filter (\<lambda>r. take 2 (chest_id r) = b) rows"
  from main_bin_rows [OF assms] obtain e where e: "map_of sorter b = Some e"
    and l: "length ?R = 9"
    and md: "map desc ?R = take 9 (e_items e @ replicate (9 - length (e_items e)) '''')"
    by blast
  have n: "length (filter (\<lambda>r. desc r \<noteq> '''') ?R) = length (filter (\<lambda>x. x \<noteq> '''') (take 9 (e_items e)))"
    unfolding length_filter_desc md by (rule count_nonempty_padded)
  from e l n count_nonempty_min [of "e_items e"] show ?thesis by auto
qed

theorem main_descriptions_count_witness:
  "\<exists>rows sorter e.
     main [(''Tools'', [''Axe'', ''axe2'']), (''Food'', [])] [(''Tools'', [''B2'']), (''Food'', [''A1'', ''X2''])] = Inr rows \<and>
     generate_all_bins ''A'' ''X'' = Inr [''A1'', ''A2'', ''B1'', ''B2'', ''C1'', ''C2'', ''D1'', ''D2'', ''E1'', ''E2'', ''F1'', ''F2'',
                                         ''G1'', ''G2'', ''H1'', ''H2'', ''I1'', ''I2'', ''J1'', ''J2'', ''K1'', ''K2'', ''L1'', ''L2'',
                                         ''M1'', ''M2'', ''N1'', ''N2'', ''O1'', ''O2'', ''P1'', ''P2'', ''Q1'', ''Q2'', ''R1'', ''R2'',
                                         ''S1'', ''S2'', ''T1'', ''T2'', ''U1'', ''U2'', ''V1'', ''V2'', ''W1'', ''W2'', ''X1'', ''X2''] \<and>
     build_full_sorter [(''Tools'', [''Axe'', ''axe2'']), (''Food'', [])] [(''Tools'', [''B2'']), (''Food'', [''A1'', ''X2''])]
       [''A1'', ''A2'', ''B1'', ''B2'', ''C1'', ''C2'', ''D1'', ''D2'', ''E1'', ''E2'', ''F1'', ''F2'',
       ''G1'', ''G2'', ''H1'', ''H2'', ''I1'', ''I2'', ''J1'', ''J2'', ''K1'', ''K2'', ''L1'', ''L2'',
       ''M1'', ''M2'', ''N1'', ''N2'', ''O1'', ''O2'', ''P1'', ''P2'', ''Q1'', ''Q2'', ''R1'', ''R2'',
       ''S1'', ''S2'', ''T1'', ''T2'', ''U1'', ''U2'', ''V1'', ''V2'', ''W1'', ''W2'', ''X1'', ''X2''] = Inr sorter \<and>
     ''B2'' \<in> set [''A1'', ''A2'', ''B1'', ''B2'', ''C1'', ''C2'', ''D1'', ''D2'', ''E1'', ''E2'', ''F1'', ''F2'',
                      ''G1'', ''G2'', ''H1'', ''H2'', ''I1'', ''I2'', ''J1'', ''J2'', ''K1'', ''K2'', ''L1'', ''L2'',
                      ''M1'', ''M2'', ''N1'', ''N2'', ''O1'', ''O2'', ''P1'', ''P2'', ''Q1'', ''Q2'', ''R1'', ''R2'',
                      ''S1'', ''S2'', ''T1'', ''T2'', ''U1'', ''U2'', ''V1'', ''V2'', ''W1'', ''W2'', ''X1'', ''X2''] \<and>
     map_of sorter ''B2'' = Some e \<and> e_items e = [''Axe'', ''axe2''] \<and>
     length (filter (\<lambda>r. desc r \<noteq> '''') (filter (\<lambda>r. take 2 (chest_id r) = ''B2'') rows)) = 2"
proof -
  from main_runs obtain rows where r: "main [(''Tools'', [''Axe'', ''axe2'']), (''Food'', [])] [(''Tools'', [''B2'']), (''Food'', [''A1'', ''X2''])] = Inr rows" ..
  note g = generate_all_bins_AX
  from main_Inr_D [OF r g] obtain sorter where
    s: "build_full_sorter [(''Tools'', [''Axe'', ''axe2'']), (''Food'', [])] [(''Tools'', [''B2'']), (''Food'', [''A1'', ''X2''])]
       [''A1'', ''A2'', ''B1'', ''B2'', ''C1'', ''C2'', ''D1'', ''D2'', ''E1'', ''E2'', ''F1'', ''F2'',
       ''G1'', ''G2'', ''H1'', ''H2'', ''I1'', ''I2'', ''J1'', ''J2'', ''K1'', ''K2'', ''L1'', ''L2'',
       ''M1'', ''M2'', ''N1'', ''N2'', ''O1'', ''O2'', ''P1'', ''P2'', ''Q1'', ''Q2'', ''R1'', ''R2'',
       ''S1'', ''S2'', ''T1'', ''T2'', ''U1'', ''U2'', ''V1'', ''V2'', ''W1'', ''W2'', ''X1'', ''X2''] = Inr sorter"
    by blast
  have b: "''B2'' \<in> set [''A1'', ''A2'', ''B1'', ''B2'', ''C1'', ''C2'', ''D1'', ''D2'', ''E1'', ''E2'', ''F1'', ''F2'',
                            ''G1'', ''G2'', ''H1'', ''H2'', ''I1'', ''I2'', ''J1'', ''J2'', ''K1'', ''K2'', ''L1'', ''L2'',
                            ''M1'', ''M2'', ''N1'', ''N2'', ''O1'', ''O2'', ''P1'', ''P2'', ''Q1'', ''Q2'', ''R1'', ''R2'',
                            ''S1'', ''S2'', ''T1'', ''T2'', ''U1'', ''U2'', ''V1'', ''V2'', ''W1'', ''W2'', ''X1'', ''X2'']" by simp
  from main_descriptions_count [OF r g s b] obtain e where e: "map_of sorter ''B2'' = Some e"
    and n: "'''' \<notin> set (e_items e) \<longrightarrow>
      length (filter (\<lambda>r. desc r \<noteq> '''') (filter (\<lambda>r. take 2 (chest_id r) = ''B2'') rows)) =
        min 9 (length (e_items e))"
    by blast
  from sorter_runs have i: "e_items e = [''Axe'', ''axe2'']" unfolding s using e by simp
  from n have "length (filter (\<lambda>r. desc r \<noteq> '''') (filter (\<lambda>r. take 2 (chest_id r) = ''B2'') rows)) = 2"
    unfolding i by simp
  with r g s b e i show ?thesis by blast
qed

text \<open>
  Claim C3 as stated fails: with the categories \<open>{"Tools": [""]}\<close> and the layout
  \<open>{"Tools": ["A1"]}\<close> one item is assigned to \<open>A1\<close>, and none of the rows of \<open>A1\<close> has a
  non-empty \<open>Description\<close>.
\<close>

theorem main_descriptions_count_counterexample:
  "(case build_full_sorter [(''Tools'', [''''])] [(''Tools'', [''A1''])]
      [''A1'', ''A2'', ''B1'', ''B2'', ''C1'', ''C2'', ''D1'', ''D2'', ''E1'', ''E2'', ''F1'', ''F2'',
      ''G1'', ''G2'', ''H1'', ''H2'', ''I1'', ''I2'', ''J1'', ''J2'', ''K1'', ''K2'', ''L1'', ''L2'',
      ''M1'', ''M2'', ''N1'', ''N2'', ''O1'', ''O2'', ''P1'', ''P2'', ''Q1'', ''Q2'', ''R1'', ''R2'',
      ''S1'', ''S2'', ''T1'', ''T2'', ''U1'', ''U2'', ''V1'', ''V2'', ''W1'', ''W2'', ''X1'', ''X2'']
    of Inr s \<Rightarrow> map_option e_items (map_of s ''A1'') | Inl _ \<Rightarrow> None) = Some [''''] \<and>
   (case main [(''Tools'', [''''])] [(''Tools'', [''A1''])]
    of Inr rows \<Rightarrow>
         Some (length (filter (\<lambda>r. desc r \<noteq> '''')
                         (filter (\<lambda>r. take 2 (chest_id r) = ''A1'') rows)))
     | Inl _ \<Rightarrow> None) = Some 0 \<and>
   min 9 (length ['''']) = (1 :: nat)"
proof -
  from main_runs_empty_name obtain rows where
    r: "main [(''Tools'', [''''])] [(''Tools'', [''A1''])] = Inr rows" ..
  note g = generate_all_bins_AX
  from main_Inr_D [OF r g] obtain sorter where
    s: "build_full_sorter [(''Tools'', [''''])] [(''Tools'', [''A1''])]
          [''A1'', ''A2'', ''B1'', ''B2'', ''C1'', ''C2'', ''D1'', ''D2'', ''E1'', ''E2'', ''F1'', ''F2'',
          ''G1'', ''G2'', ''H1'', ''H2'', ''I1'', ''I2'', ''J1'', ''J2'', ''K1'', ''K2'', ''L1'', ''L2'',
          ''M1'', ''M2'', ''N1'', ''N2'', ''O1'', ''O2'', ''P1'', ''P2'', ''Q1'', ''Q2'', ''R1'', ''R2'',
          ''S1'', ''S2'', ''T1'', ''T2'', ''U1'', ''U2'', ''V1'', ''V2'', ''W1'', ''W2'', ''X1'', ''X2''] = Inr sorter"
    by blast
  have b: "''A1'' \<in> set [''A1'', ''A2'', ''B1'', ''B2'', ''C1'', ''C2'', ''D1'', ''D2'', ''E1'', ''E2'', ''F1'', ''F2'',
                            ''G1'', ''G2'', ''H1'', ''H2'', ''I1'', ''I2'', ''J1'', ''J2'', ''K1'', ''K2'', ''L1'', ''L2'',
                            ''M1'', ''M2'', ''N1'', ''N2'', ''O1'', ''O2'', ''P1'', ''P2'', ''Q1'', ''Q2'', ''R1'', ''R2'',
                            ''S1'', ''S2'', ''T1'', ''T2'', ''U1'', ''U2'', ''V1'', ''V2'', ''W1'', ''W2'', ''X1'', ''X2'']" by simp
  from main_bin_rows [OF r g s b] obtain e where e: "map_of sorter ''A1'' = Some e"
    and md: "map desc (filter (\<lambda>r. take 2 (chest_id r) = ''A1'') rows) =
               take 9 (e_items e @ replicate (9 - length (e_items e)) '''')"
    by blast
  from sorter_runs_empty_name have i: "e_items e = ['''']" unfolding s using e by simp
  have "length (filter (\<lambda>r. desc r \<noteq> '''') (filter (\<lambda>r. take 2 (chest_id r) = ''A1'') rows)) = 0"
    unfolding length_filter_desc md i by simp
  with r sorter_runs_empty_name show ?thesis by simp
qed

text \<open>
  Claim C9. Whenever the run emits a manifest, a generated bin that no category of the
  layout lists has exactly nine rows, with the slot numbers \<open>1\<close> to \<open>9\<close>, each labelled
  \<open>UNUSED\<close> and each with an empty \<open>Description\<close>.
\<close>

theorem main_unused_bin_rows:
  assumes "main cp lp = Inr rows" and "generate_all_bins ''A'' ''X'' = Inr all_bins"
    and "b \<in> set all_bins" and "b \<notin> set (concat (map snd lp))"
  shows "length (filter (\<lambda>r. take 2 (chest_id r) = b) rows) = 9 \<and>
         map slot_num (filter (\<lambda>r. take 2 (chest_id r) = b) rows) = [1 ..< 10] \<and>
         map row_category (filter (\<lambda>r. take 2 (chest_id r) = b) rows) = replicate 9 ''UNUSED'' \<and>
         map desc (filter (\<lambda>r. take 2 (chest_id r) = b) rows) = replicate 9 ''''"
proof -
  from main_Inr_D [OF assms(1,2)] obtain sorter where
    s: "build_full_sorter cp lp all_bins = Inr sorter"
    by blast
  from assms(1) have "validate_same_categories cp lp = Inr ()" by (simp add: main_Inr_iff)
  then have "fst ` set lp \<subseteq> fst ` set cp" by (simp add: validate_same_categories_Inr)
  from build_full_sorter_cases [OF this, of all_bins] s assms(3,4)
  have e: "map_of sorter b = Some \<lparr>e_category = ''UNUSED'', e_items = []\<rparr>"
    by auto
  from main_bin_rows [OF assms(1,2) s assms(3)] e show ?thesis by auto
qed

theorem main_unused_bin_rows_witness:
  "\<exists>rows. main [(''Tools'', [''Axe'', ''axe2'']), (''Food'', [])] [(''Tools'', [''B2'']), (''Food'', [''A1'', ''X2''])] = Inr rows \<and>
     generate_all_bins ''A'' ''X'' = Inr [''A1'', ''A2'', ''B1'', ''B2'', ''C1'', ''C2'', ''D1'', ''D2'', ''E1'', ''E2'', ''F1'', ''F2'',
                                         ''G1'', ''G2'', ''H1'', ''H2'', ''I1'', ''I2'', ''J1'', ''J2'', ''K1'', ''K2'', ''L1'', ''L2'',
                                         ''M1'', ''M2'', ''N1'', ''N2'', ''O1'', ''O2'', ''P1'', ''P2'', ''Q1'', ''Q2'', ''R1'', ''R2'',
                                         ''S1'', ''S2'', ''T1'', ''T2'', ''U1'', ''U2'', ''V1'', ''V2'', ''W1'', ''W2'', ''X1'', ''X2''] \<and>
     ''C1'' \<in> set [''A1'', ''A2'', ''B1'', ''B2'', ''C1'', ''C2'', ''D1'', ''D2'', ''E1'', ''E2'', ''F1'', ''F2'',
                      ''G1'', ''G2'', ''H1'', ''H2'', ''I1'', ''I2'', ''J1'', ''J2'', ''K1'', ''K2'', ''L1'', ''L2'',
                      ''M1'', ''M2'', ''N1'', ''N2'', ''O1'', ''O2'', ''P1'', ''P2'', ''Q1'', ''Q2'', ''R1'', ''R2'',
                      ''S1'', ''S2'', ''T1'', ''T2'', ''U1'', ''U2'', ''V1'', ''V2'', ''W1'', ''W2'', ''X1'', ''X2''] \<and>
     ''C1'' \<notin> set (concat (map snd [(''Tools'', [''B2'']), (''Food'', [''A1'', ''X2''])])) \<and>
     length (filter (\<lambda>r. take 2 (chest_id r) = ''C1'') rows) = 9 \<and>
     map row_category (filter (\<lambda>r. take 2 (chest_id r) = ''C1'') rows) = replicate 9 ''UNUSED'' \<and>
     map desc (filter (\<lambda>r. take 2 (chest_id r) = ''C1'') rows) = replicate 9 ''''"
proof -
  from main_runs obtain rows where r: "main [(''Tools'', [''Axe'', ''axe2'']), (''Food'', [])] [(''Tools'', [''B2'']), (''Food'', [''A1'', ''X2''])] = Inr rows" ..
  note g = generate_all_bins_AX
  have b: "''C1'' \<in> set [''A1'', ''A2'', ''B1'', ''B2'', ''C1'', ''C2'', ''D1'', ''D2'', ''E1'', ''E2'', ''F1'', ''F2'',
                            ''G1'', ''G2'', ''H1'', ''H2'', ''I1'', ''I2'', ''J1'', ''J2'', ''K1'', ''K2'', ''L1'', ''L2'',
                            ''M1'', ''M2'', ''N1'', ''N2'', ''O1'', ''O2'', ''P1'', ''P2'', ''Q1'', ''Q2'', ''R1'', ''R2'',
                            ''S1'', ''S2'', ''T1'', ''T2'', ''U1'', ''U2'', ''V1'', ''V2'', ''W1'', ''W2'', ''X1'', ''X2'']" by simp
  have n: "''C1'' \<notin> set (concat (map snd [(''Tools'', [''B2'']), (''Food'', [''A1'', ''X2''])]))" by simp
  from main_unused_bin_rows [OF r g b n] r g b n show ?thesis by blast
qed

text \<open>
  Claim C8, as amended. When the layout lists a bin outside the generated bins, no
  manifest is emitted; and when both documents load and both validation checks pass,
  the run fails with the out-of-range error naming the first such bin in layout order.
  (When a validation check fails, the run ends with that check's error instead.)
\<close>

theorem main_out_of_range:
  assumes "generate_all_bins ''A'' ''X'' = Inr all_bins"
    and "b0 \<in> set (concat (map snd lp))" and "b0 \<notin> set all_bins"
  shows "(\<forall>rows. main cp lp \<noteq> Inr rows) \<and>
         (load_categories cp = Inr cp \<and> load_layout lp = Inr lp \<and>
          validate_same_categories cp lp = Inr () \<and> validate_layout_bins_unique lp = Inr () \<longrightarrow>
            (\<exists>b. main cp lp = Inl (OutOfRangeError b) \<and>
                 b \<in> set (concat (map snd lp)) \<and> b \<notin> set all_bins \<and>
                 find (\<lambda>b. b \<notin> set all_bins) (concat (map snd lp)) = Some b))"
proof -
  from assms(2,3) have "find (\<lambda>b. b \<notin> set all_bins) (concat (map snd lp)) \<noteq> None"
    by (auto simp: find_None_iff)
  then obtain b where f: "find (\<lambda>b. b \<notin> set all_bins) (concat (map snd lp)) = Some b"
    by auto
  note o = build_full_sorter_out_of_range [OF f, of cp]
  have 1: "main cp lp \<noteq> Inr rows" for rows
  proof
    assume "main cp lp = Inr rows"
    from main_Inr_D [OF this assms(1)] o show False by auto
  qed
  have 2: "main cp lp = Inl (OutOfRangeError b)"
    if "load_categories cp = Inr cp" "load_layout lp = Inr lp"
      "validate_same_categories cp lp = Inr ()" "validate_layout_bins_unique lp = Inr ()"
    unfolding main_loaded [OF that(1,2)] using that(3,4) assms(1) o by simp
  from find_Some_outside [OF f] have 3: "b \<in> set (concat (map snd lp))" "b \<notin> set all_bins"
    by simp_all
  from 1 2 3 f show ?thesis by blast
qed

theorem main_out_of_range_witness:
  "generate_all_bins ''A'' ''X'' = Inr [''A1'', ''A2'', ''B1'', ''B2'', ''C1'', ''C2'', ''D1'', ''D2'', ''E1'', ''E2'', ''F1'', ''F2'',
                                       ''G1'', ''G2'', ''H1'', ''H2'', ''I1'', ''I2'', ''J1'', ''J2'', ''K1'', ''K2'', ''L1'', ''L2'',
                                       ''M1'', ''M2'', ''N1'', ''N2'', ''O1'', ''O2'', ''P1'', ''P2'', ''Q1'', ''Q2'', ''R1'', ''R2'',
                                       ''S1'', ''S2'', ''T1'', ''T2'', ''U1'', ''U2'', ''V1'', ''V2'', ''W1'', ''W2'', ''X1'', ''X2''] \<and>
   ''Z9'' \<in> set (concat (map snd [(''Tools'', [''A1'', ''Z9'', ''Y1''])])) \<and>
   ''Z9'' \<notin> set [''A1'', ''A2'', ''B1'', ''B2'', ''C1'', ''C2'', ''D1'', ''D2'', ''E1'', ''E2'', ''F1'', ''F2'',
                       ''G1'', ''G2'', ''H1'', ''H2'', ''I1'', ''I2'', ''J1'', ''J2'', ''K1'', ''K2'', ''L1'', ''L2'',
                       ''M1'', ''M2'', ''N1'', ''N2'', ''O1'', ''O2'', ''P1'', ''P2'', ''Q1'', ''Q2'', ''R1'', ''R2'',
                       ''S1'', ''S2'', ''T1'', ''T2'', ''U1'', ''U2'', ''V1'', ''V2'', ''W1'', ''W2'', ''X1'', ''X2''] \<and>
   load_categories [(''Tools'', [''Axe''])] = Inr [(''Tools'', [''Axe''])] \<and>
   load_layout [(''Tools'', [''A1'', ''Z9'', ''Y1''])] = Inr [(''Tools'', [''A1'', ''Z9'', ''Y1''])] \<and>
   validate_same_categories [(''Tools'', [''Axe''])] [(''Tools'', [''A1'', ''Z9'', ''Y1''])] = Inr () \<and>
   validate_layout_bins_unique [(''Tools'', [''A1'', ''Z9'', ''Y1''])] = Inr () \<and>
   main [(''Tools'', [''Axe''])] [(''Tools'', [''A1'', ''Z9'', ''Y1''])] = Inl (OutOfRangeError ''Z9'')"
proof -
  note g = generate_all_bins_AX
  have i: "''Z9'' \<in> set (concat (map snd [(''Tools'', [''A1'', ''Z9'', ''Y1''])]))" by simp
  have o: "''Z9'' \<notin> set [''A1'', ''A2'', ''B1'', ''B2'', ''C1'', ''C2'', ''D1'', ''D2'', ''E1'', ''E2'', ''F1'', ''F2'',
                               ''G1'', ''G2'', ''H1'', ''H2'', ''I1'', ''I2'', ''J1'', ''J2'', ''K1'', ''K2'', ''L1'', ''L2'',
                               ''M1'', ''M2'', ''N1'', ''N2'', ''O1'', ''O2'', ''P1'', ''P2'', ''Q1'', ''Q2'', ''R1'', ''R2'',
                               ''S1'', ''S2'', ''T1'', ''T2'', ''U1'', ''U2'', ''V1'', ''V2'', ''W1'', ''W2'', ''X1'', ''X2'']" by simp
  have lc: "load_categories [(''Tools'', [''Axe''])] = Inr [(''Tools'', [''Axe''])]"
    by (simp add: load_Inr)
  have ll: "load_layout [(''Tools'', [''A1'', ''Z9'', ''Y1''])] = Inr [(''Tools'', [''A1'', ''Z9'', ''Y1''])]"
    by (simp add: load_Inr)
  have vs: "validate_same_categories [(''Tools'', [''Axe''])] [(''Tools'', [''A1'', ''Z9'', ''Y1''])] = Inr ()"
    by code_simp
  have vu: "validate_layout_bins_unique [(''Tools'', [''A1'', ''Z9'', ''Y1''])] = Inr ()"
    by code_simp
  from main_out_of_range [OF g i o, of "[(''Tools'', [''Axe''])]"] lc ll vs vu
  obtain b where m: "main [(''Tools'', [''Axe''])] [(''Tools'', [''A1'', ''Z9'', ''Y1''])] = Inl (OutOfRangeError b)"
    and f: "find (\<lambda>b. b \<notin> set [''A1'', ''A2'', ''B1'', ''B2'', ''C1'', ''C2'', ''D1'', ''D2'', ''E1'', ''E2'', ''F1'', ''F2'',
                                             ''G1'', ''G2'', ''H1'', ''H2'', ''I1'', ''I2'', ''J1'', ''J2'', ''K1'', ''K2'', ''L1'', ''L2'',
                                             ''M1'', ''M2'', ''N1'', ''N2'', ''O1'', ''O2'', ''P1'', ''P2'', ''Q1'', ''Q2'', ''R1'', ''R2'',
                                             ''S1'', ''S2'', ''T1'', ''T2'', ''U1'', ''U2'', ''V1'', ''V2'', ''W1'', ''W2'', ''X1'', ''X2''])
              (concat (map snd [(''Tools'', [''A1'', ''Z9'', ''Y1''])])) = Some b"
    by blast
  from f have "b = ''Z9''" by simp
  with m g i o lc ll vs vu show ?thesis by blast
qed

text \<open>
  Claim C8 as stated fails: with the categories \<open>{"Tools": ["Axe"]}\<close> and the layout
  \<open>{"Misc": ["Z9"]}\<close> the layout lists the bin \<open>Z9\<close>, which is not generated, and the run
  ends with the category mismatch report, not with the out-of-range error.
\<close>

theorem main_out_of_range_counterexample:
  "generate_all_bins ''A'' ''X'' = Inr [''A1'', ''A2'', ''B1'', ''B2'', ''C1'', ''C2'', ''D1'', ''D2'', ''E1'', ''E2'', ''F1'', ''F2'',
                                       ''G1'', ''G2'', ''H1'', ''H2'', ''I1'', ''I2'', ''J1'', ''J2'', ''K1'', ''K2'', ''L1'', ''L2'',
                                       ''M1'', ''M2'', ''N1'', ''N2'', ''O1'', ''O2'', ''P1'', ''P2'', ''Q1'', ''Q2'', ''R1'', ''R2'',
                                       ''S1'', ''S2'', ''T1'', ''T2'', ''U1'', ''U2'', ''V1'', ''V2'', ''W1'', ''W2'', ''X1'', ''X2''] \<and>
   ''Z9'' \<in> set (concat (map snd [(''Misc'', [''Z9''])])) \<and>
   ''Z9'' \<notin> set [''A1'', ''A2'', ''B1'', ''B2'', ''C1'', ''C2'', ''D1'', ''D2'', ''E1'', ''E2'', ''F1'', ''F2'',
                       ''G1'', ''G2'', ''H1'', ''H2'', ''I1'', ''I2'', ''J1'', ''J2'', ''K1'', ''K2'', ''L1'', ''L2'',
                       ''M1'', ''M2'', ''N1'', ''N2'', ''O1'', ''O2'', ''P1'', ''P2'', ''Q1'', ''Q2'', ''R1'', ''R2'',
                       ''S1'', ''S2'', ''T1'', ''T2'', ''U1'', ''U2'', ''V1'', ''V2'', ''W1'', ''W2'', ''X1'', ''X2''] \<and>
   main [(''Tools'', [''Axe''])] [(''Misc'', [''Z9''])] = Inl (CategoryMismatch [''Tools''] [''Misc''])"
proof -
  have m: "main [(''Tools'', [''Axe''])] [(''Misc'', [''Z9''])] = Inl (CategoryMismatch [''Tools''] [''Misc''])"
    by code_simp
  with generate_all_bins_AX show ?thesis by simp
qed

end
